theory Spec2Isabelle
  imports Main
begin

section \<open>Strings and plain objects\<close>

text \<open>
  Strings are sequences of code units below 256. \<open>String.prototype.trim\<close> removes
  white space and line terminators from both ends; below 256 these are the code units
  9 to 13, 32 and 160.
\<close>

definition is_space :: "char \<Rightarrow> bool" where
  "is_space c = (of_char c \<in> {9, 10, 11, 12, 13, 32, 160 :: nat})"

definition trim :: "string \<Rightarrow> string" where
  "trim s = rev (dropWhile is_space (rev (dropWhile is_space s)))"

text \<open>
  What the program throws: \<open>TypeError\<close> objects (from \<open>lib.stringLike\<close>, from the
  \<open>Module\<close> constructor, and from the language itself when a property is read from
  \<open>undefined\<close> or a non-function is called), and four kinds of message strings.
\<close>

datatype error =
    TypeError
  | DuplicateDefinition
  | SelfDependency
  | DuplicateEdge
  | CyclicDependency string

text \<open>
  \<open>lib.stringLike\<close>: the argument is a string or \<open>undefined\<close> (\<open>None\<close>). The
  empty string is falsy, so it is rejected before trimming; a string of white space
  is accepted and trims to the empty string.
\<close>

definition stringLike :: "string option \<Rightarrow> error + string" where
  "stringLike str =
     (case str of
        None \<Rightarrow> Inl TypeError
      | Some s \<Rightarrow> if s = [] then Inl TypeError else Inr (trim s))"

text \<open>
  The registries of the program are plain objects created by \<open>{}\<close>. Reading a key
  that is not an own property falls through to \<open>Object.prototype\<close>, whose property
  names are listed here; each of them holds a truthy value (a function, or for
  \<open>__proto__\<close> the prototype object itself).
\<close>

definition object_prototype_keys :: "string list" where
  "object_prototype_keys =
     [''constructor'', ''__defineGetter__'', ''__defineSetter__'', ''hasOwnProperty'',
      ''__lookupGetter__'', ''__lookupSetter__'', ''isPrototypeOf'',
      ''propertyIsEnumerable'', ''toString'', ''valueOf'', ''__proto__'',
      ''toLocaleString'']"

text \<open>The \<open>name\<close> property of the inherited value, and the string it converts to.\<close>

definition builtin_name :: "string \<Rightarrow> string option" where
  "builtin_name k =
     (if k = ''__proto__'' then None
      else if k = ''constructor'' then Some ''Object''
      else Some k)"

definition builtin_string :: "string \<Rightarrow> string" where
  "builtin_string k =
     (case builtin_name k of
        None \<Rightarrow> ''[object Object]''
      | Some n \<Rightarrow> ''function '' @ n @ ''() { [native code] }'')"

text \<open>
  \<open>for (key in object)\<close> enumerates the own keys: first the keys that are array
  indices (canonical decimal numerals below \<open>2^32 - 1\<close>) in ascending numeric order,
  then all other keys in the order in which they were created. An object is
  modelled by the list of its entries in this enumeration order, and
  \<open>own_insert\<close> adds an entry under a key that is not yet present.
\<close>

definition array_index :: "string \<Rightarrow> nat option" where
  "array_index s =
     (if s = [] \<or> (1 < length s \<and> hd s = CHR ''0'')
         \<or> \<not> list_all (\<lambda>c. 48 \<le> (of_char c :: nat) \<and> (of_char c :: nat) \<le> 57) s
      then None
      else let n = foldl (\<lambda>a c. 10 * a + (of_char c - 48)) (0::nat) s
           in if n < 4294967295 then Some n else None)"

fun own_insert :: "('a \<Rightarrow> string) \<Rightarrow> 'a \<Rightarrow> 'a list \<Rightarrow> 'a list" where
  "own_insert key x [] = [x]"
| "own_insert key x (y # ys) =
     (case array_index (key x) of
        None \<Rightarrow> y # own_insert key x ys
      | Some i \<Rightarrow>
          (case array_index (key y) of
             None \<Rightarrow> x # y # ys
           | Some j \<Rightarrow> if i < j then x # y # ys else y # own_insert key x ys))"

text \<open>
  \<open>object[k]\<close> used as a condition, for an object whose own values are all truthy
  and whose own keys are \<open>keys\<close>.
\<close>

definition has_property :: "string list \<Rightarrow> string \<Rightarrow> bool" where
  "has_property keys k = (k \<in> set keys \<or> k \<in> set object_prototype_keys)"

datatype 'a property = Own 'a | Inherited | Absent

definition get_property :: "(string \<times> 'a) list \<Rightarrow> string \<Rightarrow> 'a property" where
  "get_property obj k =
     (case map_of obj k of
        Some v \<Rightarrow> Own v
      | None \<Rightarrow> if k \<in> set object_prototype_keys then Inherited else Absent)"

definition set_property :: "string \<Rightarrow> 'a \<Rightarrow> (string \<times> 'a) list \<Rightarrow> (string \<times> 'a) list" where
  "set_property k v obj =
     (if k \<in> fst ` set obj then map (\<lambda>(k', v'). if k' = k then (k', v) else (k', v')) obj
      else own_insert fst (k, v) obj)"

section \<open>Modules\<close>

text \<open>
  A \<open>Module\<close> object. The program links modules by reference: \<open>requires\<close> and
  \<open>dependants\<close> are objects whose keys are module names and whose values are the
  modules of these names. Here a reference to a module is its name, resolved in
  the collection's module list, so each of the two objects is the list of its
  keys. The last four fields are the properties that the traversals create and
  delete; an absent flag is \<open>False\<close>, an absent \<open>index\<close> is \<open>None\<close>.
\<close>

record Module =
  name :: string
  requires :: "string list"
  numberOfRequirements :: nat
  dependants :: "string list"
  numberOfDependants :: nat
  exports :: "string list"
  source :: "string option"
  topologicalMarker :: bool
  sorting :: bool
  indexing :: bool
  index :: "nat option"

definition Module_defined :: "Module \<Rightarrow> bool" where
  "Module_defined m = (source m \<noteq> None)"

definition Module_define :: "Module \<Rightarrow> string option \<Rightarrow> error + Module" where
  "Module_define m src =
     (if Module_defined m then Inl DuplicateDefinition
      else case stringLike src of
             Inl e \<Rightarrow> Inl e
           | Inr s \<Rightarrow> Inr (m\<lparr>source := Some s\<rparr>))"

text \<open>
  The constructor \<open>new ModuleCollection.Module(name, source)\<close>: the name is
  validated, the fields are initialised, and a truthy source defines the module.
\<close>

definition empty_Module :: "string \<Rightarrow> Module" where
  "empty_Module n =
     \<lparr>name = n, requires = [], numberOfRequirements = 0, dependants = [],
      numberOfDependants = 0, exports = [], source = None,
      topologicalMarker = False, sorting = False, indexing = False, index = None\<rparr>"

definition new_Module :: "string \<Rightarrow> string option \<Rightarrow> error + Module" where
  "new_Module nm src =
     (case stringLike (Some nm) of
        Inl e \<Rightarrow> Inl e
      | Inr n \<Rightarrow>
          if n = [] then Inl TypeError
          else if src = None \<or> src = Some [] then Inr (empty_Module n)
          else Module_define (empty_Module n) src)"

definition Module_clone :: "Module \<Rightarrow> error + Module" where
  "Module_clone m = new_Module (name m) (source m)"

definition Module_addExport :: "Module \<Rightarrow> string \<Rightarrow> Module" where
  "Module_addExport m meta =
     (let meta1 = (if meta = [] then name m else meta)
      in if meta1 \<in> set (exports m) then m else m\<lparr>exports := exports m @ [meta1]\<rparr>)"

text \<open>The module list of a collection: lookup of a reference, update in place.\<close>

definition lookup :: "Module list \<Rightarrow> string \<Rightarrow> Module option" where
  "lookup ms n = find (\<lambda>m. name m = n) ms"

definition modify :: "string \<Rightarrow> (Module \<Rightarrow> Module) \<Rightarrow> Module list \<Rightarrow> Module list" where
  "modify n f ms = map (\<lambda>m. if name m = n then f m else m) ms"

text \<open>Reading \<open>module.index\<close> and \<open>module.sorting\<close> through a reference.\<close>

definition module_index :: "Module list \<Rightarrow> string \<Rightarrow> nat option" where
  "module_index ms n = (case lookup ms n of None \<Rightarrow> None | Some m \<Rightarrow> index m)"

definition module_sorting :: "Module list \<Rightarrow> string \<Rightarrow> bool" where
  "module_sorting ms n = (case lookup ms n of None \<Rightarrow> False | Some m \<Rightarrow> sorting m)"

text \<open>
  What \<open>get\<close> can return: a module, a value inherited from \<open>Object.prototype\<close>
  (under the given key), or \<open>undefined\<close>.
\<close>

datatype jsval = ModuleRef string | Builtin string | Undefined

text \<open>
  \<open>Module.prototype.require\<close>, called on the module \<open>this\<close> of the list. An
  inherited value as requirement has a \<open>name\<close> and converts to a string, but has no
  \<open>dependants\<close>.
\<close>

definition Module_require :: "Module list \<Rightarrow> string \<Rightarrow> jsval \<Rightarrow> error + Module list" where
  "Module_require ms this requirement =
     (case lookup ms this of
        None \<Rightarrow> Inl TypeError
      | Some t \<Rightarrow>
          (case requirement of
             Undefined \<Rightarrow> Inl TypeError
           | Builtin k \<Rightarrow>
               if Some (name t) = builtin_name k then Inl SelfDependency
               else if has_property (requires t) (builtin_string k) then Inl DuplicateEdge
               else Inl TypeError
           | ModuleRef r \<Rightarrow>
               (case lookup ms r of
                  None \<Rightarrow> Inl TypeError
                | Some q \<Rightarrow>
                    if name t = name q then Inl SelfDependency
                    else if has_property (requires t) (name q)
                            \<or> has_property (dependants q) (name t)
                    then Inl DuplicateEdge
                    else
                      Inr (modify (name q)
                             (\<lambda>m. m\<lparr>dependants := own_insert id (name t) (dependants m),
                                    numberOfDependants := numberOfDependants m + 1\<rparr>)
                             (modify (name t)
                                (\<lambda>m. m\<lparr>requires := own_insert id (name q) (requires m),
                                       numberOfRequirements := numberOfRequirements m + 1\<rparr>)
                                ms)))))"

section \<open>Dependencies and the collection\<close>

record Dependency =
  dep_require :: string
  dep_module :: string

text \<open>
  The constructor \<open>new ModuleCollection.Dependency(module, requirement)\<close>: an
  inherited value or \<open>undefined\<close> has no method \<open>require\<close>.
\<close>

definition new_Dependency :: "Module list \<Rightarrow> jsval \<Rightarrow> jsval \<Rightarrow> error + Dependency \<times> Module list" where
  "new_Dependency ms module requirement =
     (case module of
        ModuleRef a \<Rightarrow>
          (case Module_require ms a requirement of
             Inl e \<Rightarrow> Inl e
           | Inr ms' \<Rightarrow>
               (case requirement of
                  ModuleRef b \<Rightarrow> Inr (\<lparr>dep_require = b, dep_module = a\<rparr>, ms')
                | _ \<Rightarrow> Inl TypeError))
      | _ \<Rightarrow> Inl TypeError)"

record ModuleCollection =
  modules :: "Module list"
  numberOfModules :: nat
  sources :: "(string \<times> (string \<times> string) list) list"
  dependencies :: "Dependency list"
  numberOfDependencies :: nat
  recentModule :: "string option"
  recentDependency :: "Dependency option"

definition new_ModuleCollection :: ModuleCollection where
  "new_ModuleCollection =
     \<lparr>modules = [], numberOfModules = 0, sources = [], dependencies = [],
      numberOfDependencies = 0, recentModule = None, recentDependency = None\<rparr>"

text \<open>
  \<open>get(name, anyway)\<close>, with \<open>anyway\<close> either \<open>true\<close> or omitted. The counter is
  incremented before the constructor runs, and the module is stored only when the
  constructor returns. The stored key is the trimmed name, which is also the name
  the constructor gives the module.
\<close>

definition get :: "ModuleCollection \<Rightarrow> string \<Rightarrow> bool \<Rightarrow> (error + jsval) \<times> ModuleCollection" where
  "get c nm anyway =
     (case stringLike (Some nm) of
        Inl e \<Rightarrow> (Inl e, c)
      | Inr n \<Rightarrow>
          (case lookup (modules c) n of
             Some m \<Rightarrow> (Inr (ModuleRef n), c)
           | None \<Rightarrow>
               if n \<in> set object_prototype_keys then (Inr (Builtin n), c)
               else if \<not> anyway then (Inr Undefined, c)
               else
                 let c1 = c\<lparr>numberOfModules := numberOfModules c + 1\<rparr>
                 in (case new_Module n None of
                       Inl e \<Rightarrow> (Inl e, c1)
                     | Inr m \<Rightarrow>
                         (Inr (ModuleRef n),
                          c1\<lparr>modules := own_insert name m (modules c1)\<rparr>))))"

definition getBySource :: "ModuleCollection \<Rightarrow> string \<Rightarrow> (string \<times> string) list property" where
  "getBySource c src = get_property (sources c) src"

text \<open>
  \<open>add(name, source)\<close>. The registry is read under the module's source, but when
  nothing is found there the fresh inner object is stored under the module itself,
  that is under its name; the module is then entered into the inner object under
  its source. When the source is a key inherited from \<open>Object.prototype\<close> the entry
  is written into the inherited value and the collection does not change; for
  \<open>__proto__\<close> the prototype object refuses the assignment.
\<close>

definition add :: "ModuleCollection \<Rightarrow> string \<Rightarrow> string option \<Rightarrow> (error + string) \<times> ModuleCollection" where
  "add c nm src =
     (case get c nm True of
        (Inl e, c1) \<Rightarrow> (Inl e, c1)
      | (Inr (ModuleRef n), c1) \<Rightarrow>
          (case lookup (modules c1) n of
             None \<Rightarrow> (Inl TypeError, c1)
           | Some m \<Rightarrow>
               (case Module_define m src of
                  Inl e \<Rightarrow> (Inl e, c1)
                | Inr m' \<Rightarrow>
                    let c2 = c1\<lparr>modules := modify n (\<lambda>_. m') (modules c1),
                                recentModule := Some n\<rparr>
                    in (case source m' of
                          None \<Rightarrow> (Inl TypeError, c2)
                        | Some s \<Rightarrow>
                            (case get_property (sources c2) s of
                               Own inner \<Rightarrow>
                                 (Inr n, c2\<lparr>sources :=
                                    set_property s (set_property s n inner) (sources c2)\<rparr>)
                             | Inherited \<Rightarrow>
                                 if s = ''__proto__'' then (Inl TypeError, c2) else (Inr n, c2)
                             | Absent \<Rightarrow>
                                 (Inr n, c2\<lparr>sources :=
                                    set_property n (set_property s n []) (sources c2)\<rparr>)))))
      | (Inr _, c1) \<Rightarrow> (Inl TypeError, c1))"

text \<open>
  \<open>connect(module, dependency)\<close>: both modules are fetched or created before the
  edge is constructed; the edge is pushed and counted only when the constructor
  returns.
\<close>

definition connect :: "ModuleCollection \<Rightarrow> string \<Rightarrow> string \<Rightarrow> (error + Dependency) \<times> ModuleCollection" where
  "connect c module dependency =
     (case get c module True of
        (Inl e, c1) \<Rightarrow> (Inl e, c1)
      | (Inr a, c1) \<Rightarrow>
          (case get c1 dependency True of
             (Inl e, c2) \<Rightarrow> (Inl e, c2)
           | (Inr b, c2) \<Rightarrow>
               (case new_Dependency (modules c2) a b of
                  Inl e \<Rightarrow> (Inl e, c2)
                | Inr (d, ms) \<Rightarrow>
                    (Inr d,
                     c2\<lparr>modules := ms, recentDependency := Some d,
                        dependencies := dependencies c2 @ [d],
                        numberOfDependencies := numberOfDependencies c2 + 1\<rparr>))))"

section \<open>Analysis\<close>

text \<open>
  The statistics object filled by the analysers. The lists hold references to
  modules, in the order in which they were pushed.
\<close>

record Stat =
  orphanModules :: "string list"
  definedModules :: "string list"
  numberOfExports :: nat

text \<open>The loop of the built-in analyser over the modules of the collection.\<close>

fun analyser_loop :: "Module list \<Rightarrow> Stat \<Rightarrow> Stat" where
  "analyser_loop [] stat = stat"
| "analyser_loop (m # ms) stat =
     analyser_loop ms
       ((if Module_defined m
         then stat\<lparr>definedModules := definedModules stat @ [name m]\<rparr>
         else stat\<lparr>orphanModules := orphanModules stat @ [name m]\<rparr>)
        \<lparr>numberOfExports := numberOfExports stat + length (exports m)\<rparr>)"

definition analysers :: "(ModuleCollection \<Rightarrow> Stat \<Rightarrow> Stat) list" where
  "analysers =
     [\<lambda>c stat. analyser_loop (modules c)
                 (stat\<lparr>orphanModules := [], definedModules := [], numberOfExports := 0\<rparr>)]"

definition analyse :: "ModuleCollection \<Rightarrow> Stat" where
  "analyse c =
     foldl (\<lambda>stat analyser. analyser c stat)
       \<lparr>orphanModules = [], definedModules = [], numberOfExports = 0\<rparr> analysers"

section \<open>Cloning\<close>

text \<open>
  \<open>clone()\<close> first adds, for every module of the collection, a copy of the module
  under the module's own source, which is \<open>undefined\<close> for a module that was never
  defined; then it connects the copies along the recorded dependencies. An
  exception leaves the loop and the method, and the caller gets no collection.
\<close>

fun clone_modules :: "Module list \<Rightarrow> ModuleCollection \<Rightarrow> error + ModuleCollection" where
  "clone_modules [] cl = Inr cl"
| "clone_modules (m # ms) cl =
     (case Module_clone m of
        Inl e \<Rightarrow> Inl e
      | Inr m' \<Rightarrow>
          (case add cl (name m') (source m) of
             (Inl e, cl') \<Rightarrow> Inl e
           | (Inr _, cl') \<Rightarrow> clone_modules ms cl'))"

fun clone_dependencies :: "Dependency list \<Rightarrow> ModuleCollection \<Rightarrow> error + ModuleCollection" where
  "clone_dependencies [] cl = Inr cl"
| "clone_dependencies (d # ds) cl =
     (case connect cl (dep_module d) (dep_require d) of
        (Inl e, cl') \<Rightarrow> Inl e
      | (Inr _, cl') \<Rightarrow> clone_dependencies ds cl')"

definition clone :: "ModuleCollection \<Rightarrow> error + ModuleCollection" where
  "clone c =
     (case clone_modules (modules c) new_ModuleCollection of
        Inl e \<Rightarrow> Inl e
      | Inr cl \<Rightarrow> clone_dependencies (dependencies c) cl)"

section \<open>Serialisation\<close>

text \<open>
  The array \<open>sortStack\<close>: its elements, where \<open>None\<close> is a hole, and the property
  \<open>undefined\<close> that \<open>sortStack[module.index]\<close> addresses for a module without an
  index. Writing beyond the end of an array extends it with holes.
\<close>

record SortStack =
  elements :: "string list option list"
  undefined_element :: "string list option"

definition push_sorted :: "nat option \<Rightarrow> string \<Rightarrow> SortStack \<Rightarrow> SortStack" where
  "push_sorted idx n s =
     (case idx of
        None \<Rightarrow>
          s\<lparr>undefined_element :=
              Some (case undefined_element s of None \<Rightarrow> [n] | Some b \<Rightarrow> b @ [n])\<rparr>
      | Some i \<Rightarrow>
          if i < length (elements s)
          then s\<lparr>elements :=
                   (elements s)[i := Some (case elements s ! i of
                                             None \<Rightarrow> [n] | Some b \<Rightarrow> b @ [n])]\<rparr>
          else s\<lparr>elements :=
                   elements s @ replicate (i - length (elements s)) None @ [Some [n]]\<rparr>)"

text \<open>
  The two traversals are recursive through the loops over \<open>requires\<close> and
  \<open>dependants\<close>. The first argument bounds the depth of the recursion; the result
  \<open>None\<close> says that the bound was reached. A reference that does not resolve
  stands for \<open>undefined\<close>, whose properties cannot be read.

  \<open>collectionTopoSort\<close> returns the modules, also when it throws: the markers it
  has set stay on the modules.
\<close>

fun collectionTopoSort ::
      "nat \<Rightarrow> string \<Rightarrow> Module list \<times> SortStack \<Rightarrow> ((error + unit) \<times> Module list \<times> SortStack) option"
  and topoSort_requires ::
      "nat \<Rightarrow> string list \<Rightarrow> Module list \<times> SortStack \<Rightarrow> ((error + unit) \<times> Module list \<times> SortStack) option"
where
  "collectionTopoSort 0 n (ms, sortStack) = None"
| "collectionTopoSort (Suc fuel) n (ms, sortStack) =
     (case lookup ms n of
        None \<Rightarrow> Some (Inl TypeError, ms, sortStack)
      | Some m \<Rightarrow>
          if topologicalMarker m
          then Some (Inl (CyclicDependency (name m)),
                     modify n (\<lambda>m. m\<lparr>topologicalMarker := False\<rparr>) ms, sortStack)
          else if sorting m then Some (Inr (), ms, sortStack)
          else
            (case topoSort_requires fuel (requires m)
                    (modify n (\<lambda>m. m\<lparr>topologicalMarker := True\<rparr>) ms, sortStack) of
               None \<Rightarrow> None
             | Some (Inl e, ms1, sortStack1) \<Rightarrow> Some (Inl e, ms1, sortStack1)
             | Some (Inr _, ms1, sortStack1) \<Rightarrow>
                 Some (Inr (),
                       modify n (\<lambda>m. m\<lparr>topologicalMarker := False, sorting := True\<rparr>) ms1,
                       push_sorted (module_index ms1 n) (name m) sortStack1)))"
| "topoSort_requires fuel [] st = Some (Inr (), st)"
| "topoSort_requires fuel (item # items) st =
     (case collectionTopoSort fuel item st of
        None \<Rightarrow> None
      | Some (Inl e, st1) \<Rightarrow> Some (Inl e, st1)
      | Some (Inr _, st1) \<Rightarrow> topoSort_requires fuel items st1)"

fun collectionAdjacencyIndex ::
      "nat \<Rightarrow> string \<Rightarrow> nat \<Rightarrow> Module list \<Rightarrow> ((error + unit) \<times> Module list) option"
  and adjacencyIndex_each ::
      "nat \<Rightarrow> string list \<Rightarrow> nat \<Rightarrow> Module list \<Rightarrow> ((error + unit) \<times> Module list) option"
where
  "collectionAdjacencyIndex 0 n i ms = None"
| "collectionAdjacencyIndex (Suc fuel) n i ms =
     (case lookup ms n of
        None \<Rightarrow> Some (Inl TypeError, ms)
      | Some m \<Rightarrow>
          if indexing m then Some (Inr (), ms)
          else
            (case adjacencyIndex_each fuel (requires m) i
                    (modify n (\<lambda>m. m\<lparr>index := Some i, indexing := True\<rparr>) ms) of
               None \<Rightarrow> None
             | Some (Inl e, ms1) \<Rightarrow> Some (Inl e, ms1)
             | Some (Inr _, ms1) \<Rightarrow> adjacencyIndex_each fuel (dependants m) i ms1))"
| "adjacencyIndex_each fuel [] i ms = Some (Inr (), ms)"
| "adjacencyIndex_each fuel (item # items) i ms =
     (case collectionAdjacencyIndex fuel item i ms of
        None \<Rightarrow> None
      | Some (Inl e, ms1) \<Rightarrow> Some (Inl e, ms1)
      | Some (Inr _, ms1) \<Rightarrow> adjacencyIndex_each fuel items i ms1)"

text \<open>
  The first loop of \<open>serialize\<close> over the keys of \<open>modules\<close>, with the modules, the
  stack and \<open>adjacencyPoint\<close> as state.
\<close>

fun serialize_loop ::
      "nat \<Rightarrow> string list \<Rightarrow> Module list \<times> SortStack \<times> nat
         \<Rightarrow> ((error + unit) \<times> Module list \<times> SortStack \<times> nat) option" where
  "serialize_loop fuel [] st = Some (Inr (), st)"
| "serialize_loop fuel (k # ks) (ms, sortStack, adjacencyPoint) =
     (case lookup ms k of
        None \<Rightarrow> Some (Inl TypeError, ms, sortStack, adjacencyPoint)
      | Some m \<Rightarrow>
          (case (if \<not> indexing m
                 then map_option (\<lambda>(r, ms1). (r, ms1, adjacencyPoint + 1))
                        (collectionAdjacencyIndex fuel k adjacencyPoint ms)
                 else Some (Inr (), ms, adjacencyPoint)) of
             None \<Rightarrow> None
           | Some (Inl e, ms1, adjacencyPoint1) \<Rightarrow> Some (Inl e, ms1, sortStack, adjacencyPoint1)
           | Some (Inr _, ms1, adjacencyPoint1) \<Rightarrow>
               if module_sorting ms1 k
               then serialize_loop fuel ks (ms1, sortStack, adjacencyPoint1)
               else
                 (case collectionTopoSort fuel k (ms1, sortStack) of
                    None \<Rightarrow> None
                  | Some (Inl e, ms2, sortStack2) \<Rightarrow>
                      Some (Inl e, ms2, sortStack2, adjacencyPoint1)
                  | Some (Inr _, ms2, sortStack2) \<Rightarrow>
                      serialize_loop fuel ks (ms2, sortStack2, adjacencyPoint1))))"

text \<open>
  \<open>serialize()\<close>: the first loop, then the second loop that deletes \<open>sorting\<close> and
  \<open>indexing\<close> from every module, then the stack. An exception in the first loop
  leaves the method before the second loop.
\<close>

definition serialize :: "nat \<Rightarrow> ModuleCollection \<Rightarrow> ((error + SortStack) \<times> ModuleCollection) option" where
  "serialize fuel c =
     (case serialize_loop fuel (map name (modules c))
             (modules c, \<lparr>elements = [], undefined_element = None\<rparr>, 0) of
        None \<Rightarrow> None
      | Some (Inl e, ms, sortStack, adjacencyPoint) \<Rightarrow> Some (Inl e, c\<lparr>modules := ms\<rparr>)
      | Some (Inr _, ms, sortStack, adjacencyPoint) \<Rightarrow>
          Some (Inr sortStack,
                c\<lparr>modules := map (\<lambda>m. m\<lparr>sorting := False, indexing := False\<rparr>) ms\<rparr>))"

section \<open>The dependency graph of a collection\<close>

text \<open>
  The directed edges, module to requirement, and weak connectivity: reachability
  along edges taken in either direction.
\<close>

definition requires_edges :: "Module list \<Rightarrow> (string \<times> string) set" where
  "requires_edges ms = {(name m, r) | m r. m \<in> set ms \<and> r \<in> set (requires m)}"

definition weakly_connected :: "Module list \<Rightarrow> (string \<times> string) set" where
  "weakly_connected ms = (requires_edges ms \<union> (requires_edges ms)\<inverse>)\<^sup>*"

text \<open>
  The invariants of a module list that \<open>get\<close>, \<open>add\<close> and \<open>connect\<close> maintain:
  names are unique, every reference resolves, and the two adjacency objects
  mirror each other. A list is clean when no traversal flag is set.
\<close>

definition well_formed :: "Module list \<Rightarrow> bool" where
  "well_formed ms \<longleftrightarrow>
     distinct (map name ms)
     \<and> (\<forall>m \<in> set ms. \<forall>r \<in> set (requires m).
            \<exists>q \<in> set ms. name q = r \<and> name m \<in> set (dependants q))
     \<and> (\<forall>m \<in> set ms. \<forall>d \<in> set (dependants m).
            \<exists>q \<in> set ms. name q = d \<and> name m \<in> set (requires q))"

definition clean :: "Module list \<Rightarrow> bool" where
  "clean ms \<longleftrightarrow> (\<forall>m \<in> set ms. \<not> topologicalMarker m \<and> \<not> sorting m \<and> \<not> indexing m)"

section \<open>The state of a traversal\<close>

text \<open>
  What the traversals read and write, seen through the registry: the names that
  resolve to a module, the modules that carry \<open>topologicalMarker\<close> (being visited),
  \<open>sorting\<close> (already pushed) and \<open>indexing\<close> (already given an index), and the
  \<open>requires\<close> and \<open>dependants\<close> keys of the module a name resolves to.
\<close>

definition present :: "Module list \<Rightarrow> string set" where
  "present ms = {k. lookup ms k \<noteq> None}"

definition gray :: "Module list \<Rightarrow> string set" where
  "gray ms = {k. \<exists>m. lookup ms k = Some m \<and> topologicalMarker m}"

definition black :: "Module list \<Rightarrow> string set" where
  "black ms = {k. \<exists>m. lookup ms k = Some m \<and> sorting m}"

definition indexed :: "Module list \<Rightarrow> string set" where
  "indexed ms = {k. \<exists>m. lookup ms k = Some m \<and> indexing m}"

definition reqs :: "Module list \<Rightarrow> string \<Rightarrow> string list" where
  "reqs ms k = (case lookup ms k of None \<Rightarrow> [] | Some m \<Rightarrow> requires m)"

definition deps :: "Module list \<Rightarrow> string \<Rightarrow> string list" where
  "deps ms k = (case lookup ms k of None \<Rightarrow> [] | Some m \<Rightarrow> dependants m)"

text \<open>
  The requires-edges and the edges in either direction, as relations on names, and
  the collections in which every key of an adjacency object resolves.
\<close>

definition req_rel :: "Module list \<Rightarrow> (string \<times> string) set" where
  "req_rel ms = {(a, b). b \<in> set (reqs ms a)}"

definition nbrs :: "Module list \<Rightarrow> string \<Rightarrow> string set" where
  "nbrs ms k = set (reqs ms k) \<union> set (deps ms k)"

definition adj_rel :: "Module list \<Rightarrow> (string \<times> string) set" where
  "adj_rel ms = {(a, b). b \<in> nbrs ms a}"

definition closed :: "Module list \<Rightarrow> bool" where
  "closed ms \<longleftrightarrow> (\<forall>k. set (reqs ms k) \<subseteq> present ms)"

definition closed_adj :: "Module list \<Rightarrow> bool" where
  "closed_adj ms \<longleftrightarrow> (\<forall>k. nbrs ms k \<subseteq> present ms)"

text \<open>
  The modules \<open>collectionTopoSort\<close> has not met yet bound its recursion depth.
\<close>

definition white :: "Module list \<Rightarrow> string set" where
  "white ms = present ms - gray ms - black ms"

text \<open>
  \<open>collectionTopoSort\<close> writes \<open>topologicalMarker\<close> and \<open>sorting\<close> only, and
  \<open>collectionAdjacencyIndex\<close> writes \<open>indexing\<close> and \<open>index\<close> only: two module lists
  are in the frame of a traversal when they agree on everything else. A call of
  \<open>collectionTopoSort\<close> that returns leaves the markers as they were and removes
  no \<open>sorting\<close> flag. A call of \<open>collectionAdjacencyIndex\<close> with index \<open>i\<close> started
  from the modules \<open>R\<close> keeps the modules that had an index, and gives index \<open>i\<close>
  to modules connected to \<open>R\<close>, all of whose neighbours have an index afterwards.
\<close>

definition unmarked :: "Module \<Rightarrow> Module" where
  "unmarked m = m\<lparr>topologicalMarker := False, sorting := False\<rparr>"

definition sort_frame :: "Module list \<Rightarrow> Module list \<Rightarrow> bool" where
  "sort_frame ms ms' \<longleftrightarrow>
     (\<forall>k. map_option unmarked (lookup ms' k) = map_option unmarked (lookup ms k))"

definition sort_ok :: "Module list \<Rightarrow> Module list \<Rightarrow> bool" where
  "sort_ok ms ms' \<longleftrightarrow>
     gray ms' = gray ms \<and> black ms \<subseteq> black ms' \<and> black ms' \<inter> gray ms \<subseteq> black ms"

definition unindexed :: "Module \<Rightarrow> Module" where
  "unindexed m = m\<lparr>indexing := False, index := None\<rparr>"

definition index_frame :: "Module list \<Rightarrow> Module list \<Rightarrow> bool" where
  "index_frame ms ms' \<longleftrightarrow>
     (\<forall>k. map_option unindexed (lookup ms' k) = map_option unindexed (lookup ms k))"

definition index_step :: "Module list \<Rightarrow> Module list \<Rightarrow> nat \<Rightarrow> string set \<Rightarrow> bool" where
  "index_step ms ms' i R \<longleftrightarrow>
     index_frame ms ms'
     \<and> indexed ms \<subseteq> indexed ms'
     \<and> (\<forall>k \<in> indexed ms. module_index ms' k = module_index ms k)
     \<and> (\<forall>k \<in> indexed ms' - indexed ms.
           module_index ms' k = Some i \<and> (\<exists>root \<in> R. (root, k) \<in> (adj_rel ms)\<^sup>*)
           \<and> nbrs ms k \<subseteq> indexed ms')
     \<and> R \<subseteq> indexed ms'"

definition same_graph :: "Module list \<Rightarrow> Module list \<Rightarrow> bool" where
  "same_graph ms ms' \<longleftrightarrow> present ms' = present ms \<and> reqs ms' = reqs ms \<and> deps ms' = deps ms"

text \<open>
  A bucket is in dependency order when the requirements of its entry at position
  \<open>j\<close> are among its first \<open>j\<close> entries. Bucket \<open>i\<close> of the sort stack holds, in
  dependency order and without repetition, the sorted modules of index \<open>i\<close>; the
  stack has no hole, nothing was pushed under the key \<open>undefined\<close>, and every
  sorted module is in its bucket.
\<close>

definition ordered :: "Module list \<Rightarrow> string list \<Rightarrow> bool" where
  "ordered ms b \<longleftrightarrow> (\<forall>j < length b. set (reqs ms (b ! j)) \<subseteq> set (take j b))"

definition bucket_ok :: "Module list \<Rightarrow> nat \<Rightarrow> string list \<Rightarrow> bool" where
  "bucket_ok ms i b \<longleftrightarrow>
     b \<noteq> [] \<and> distinct b \<and> set b = {k \<in> black ms. module_index ms k = Some i}
     \<and> ordered ms b"

definition stack_inv :: "Module list \<Rightarrow> SortStack \<Rightarrow> bool" where
  "stack_inv ms stk \<longleftrightarrow>
     undefined_element stk = None
     \<and> (\<forall>i < length (elements stk). \<exists>b. elements stk ! i = Some b \<and> bucket_ok ms i b)
     \<and> (\<forall>k \<in> black ms. \<exists>i < length (elements stk). module_index ms k = Some i)"

definition indexed_ok :: "Module list \<Rightarrow> nat \<Rightarrow> bool" where
  "indexed_ok ms L \<longleftrightarrow>
     (\<forall>k \<in> indexed ms. \<exists>i. module_index ms k = Some i \<and> i \<le> L
        \<and> (\<forall>r \<in> set (reqs ms k). r \<in> indexed ms \<and> module_index ms r = Some i))"

text \<open>
  What holds between two iterations of the loop of \<open>serialize\<close>, with \<open>ap\<close> the
  value of \<open>adjacencyPoint\<close>: no module is being visited; the indexed modules are
  closed under the edges taken in either direction, their indices are below
  \<open>ap\<close>, and two of them have the same index exactly when they are connected;
  the sort stack has \<open>ap\<close> buckets.
\<close>

definition graph_inv :: "Module list \<Rightarrow> nat \<Rightarrow> bool" where
  "graph_inv ms ap \<longleftrightarrow>
     gray ms = {} \<and> black ms \<subseteq> indexed ms \<and> closed_adj ms \<and> sym (adj_rel ms)
     \<and> (\<forall>k \<in> indexed ms. nbrs ms k \<subseteq> indexed ms)
     \<and> (\<forall>k \<in> indexed ms. \<exists>j < ap. module_index ms k = Some j)
     \<and> (\<forall>k \<in> indexed ms. \<forall>k' \<in> indexed ms.
           module_index ms k = module_index ms k' \<longleftrightarrow> (k, k') \<in> (adj_rel ms)\<^sup>*)"

definition loop_inv :: "Module list \<Rightarrow> SortStack \<Rightarrow> nat \<Rightarrow> bool" where
  "loop_inv ms stk ap \<longleftrightarrow>
     graph_inv ms ap \<and> stack_inv ms stk \<and> length (elements stk) = ap"

text \<open>
  The sort stack that holds the buckets \<open>bs\<close>, and what it is for the buckets to
  be the weakly connected components of a module list: every module is in exactly
  one bucket, exactly once, no bucket is empty, and a bucket holds exactly the
  modules connected to any one of its members.
\<close>

definition buckets_of :: "string list list \<Rightarrow> SortStack" where
  "buckets_of bs = \<lparr>elements = map Some bs, undefined_element = None\<rparr>"

definition component_buckets :: "Module list \<Rightarrow> string list list \<Rightarrow> bool" where
  "component_buckets ms bs \<longleftrightarrow>
     distinct (concat bs) \<and> set (concat bs) = name ` set ms
     \<and> (\<forall>b \<in> set bs. b \<noteq> [] \<and> (\<forall>x \<in> set b. set b = {y. (x, y) \<in> weakly_connected ms}))"

section \<open>Collections that the methods build\<close>

text \<open>
  The part of a module that no traversal writes: its name and the keys of its two
  adjacency objects.
\<close>

definition links :: "Module \<Rightarrow> string \<times> string list \<times> string list" where
  "links m = (name m, requires m, dependants m)"

text \<open>
  The collections that arise from a new collection by calls of \<open>get\<close>, \<open>add\<close>,
  \<open>connect\<close> and \<open>serialize\<close>, whatever these calls return or throw; the
  recursion depth allowed to \<open>serialize\<close> exceeds the number of modules. In
  \<open>built\<close> only the calls of \<open>serialize\<close> that return a stack are counted.
\<close>

inductive built :: "ModuleCollection \<Rightarrow> bool" where
  built_new: "built new_ModuleCollection"
| built_get: "built c \<Longrightarrow> get c nm anyway = (r, c') \<Longrightarrow> built c'"
| built_add: "built c \<Longrightarrow> add c nm src = (r1, c') \<Longrightarrow> built c'"
| built_connect: "built c \<Longrightarrow> connect c a b = (r2, c') \<Longrightarrow> built c'"
| built_serialize:
    "built c \<Longrightarrow> length (modules c) < fuel \<Longrightarrow> serialize fuel c = Some (Inr stk, c') \<Longrightarrow>
     built c'"

inductive reached :: "ModuleCollection \<Rightarrow> bool" where
  reached_new: "reached new_ModuleCollection"
| reached_get: "reached c \<Longrightarrow> get c nm anyway = (r, c') \<Longrightarrow> reached c'"
| reached_add: "reached c \<Longrightarrow> add c nm src = (r1, c') \<Longrightarrow> reached c'"
| reached_connect: "reached c \<Longrightarrow> connect c a b = (r2, c') \<Longrightarrow> reached c'"
| reached_serialize:
    "reached c \<Longrightarrow> length (modules c) < fuel \<Longrightarrow> serialize fuel c = Some (r3, c') \<Longrightarrow>
     reached c'"

section \<open>Example collections\<close>

text \<open>A module with the given requirements and dependants, and nothing else.\<close>

definition linked_Module :: "string \<Rightarrow> string list \<Rightarrow> string list \<Rightarrow> Module" where
  "linked_Module n rs ds =
     (empty_Module n)\<lparr>requires := rs, numberOfRequirements := length rs,
                       dependants := ds, numberOfDependants := length ds\<rparr>"

definition edge :: "string \<Rightarrow> string \<Rightarrow> Dependency" where
  "edge a b = \<lparr>dep_require = b, dep_module = a\<rparr>"

text \<open>After \<open>connect("A", "B")\<close> on a new collection.\<close>

definition example_AB :: ModuleCollection where
  "example_AB =
     \<lparr>modules = [linked_Module ''A'' [''B''] [], linked_Module ''B'' [] [''A'']],
      numberOfModules = 2, sources = [], dependencies = [edge ''A'' ''B''],
      numberOfDependencies = 1, recentModule = None,
      recentDependency = Some (edge ''A'' ''B'')\<rparr>"

text \<open>After \<open>add("B", "b.js")\<close> on the collection above.\<close>

definition example_B_added :: ModuleCollection where
  "example_B_added =
     \<lparr>modules = [linked_Module ''A'' [''B''] [],
                 (linked_Module ''B'' [] [''A''])\<lparr>source := Some ''b.js''\<rparr>],
      numberOfModules = 2, sources = [(''B'', [(''b.js'', ''B'')])],
      dependencies = [edge ''A'' ''B''], numberOfDependencies = 1,
      recentModule = Some ''B'', recentDependency = Some (edge ''A'' ''B'')\<rparr>"

text \<open>After \<open>add("A", "a.js")\<close> on a new collection.\<close>

definition example_added :: ModuleCollection where
  "example_added =
     \<lparr>modules = [(empty_Module ''A'')\<lparr>source := Some ''a.js''\<rparr>],
      numberOfModules = 1, sources = [(''A'', [(''a.js'', ''A'')])], dependencies = [],
      numberOfDependencies = 0, recentModule = Some ''A'', recentDependency = None\<rparr>"

text \<open>
  After \<open>connect("B", "C")\<close> on the collection after \<open>connect("A", "B")\<close>: the
  chain A requires B, B requires C.
\<close>

definition example_chain :: ModuleCollection where
  "example_chain =
     \<lparr>modules = [linked_Module ''A'' [''B''] [], linked_Module ''B'' [''C''] [''A''],
                 linked_Module ''C'' [] [''B'']],
      numberOfModules = 3, sources = [], dependencies = [edge ''A'' ''B'', edge ''B'' ''C''],
      numberOfDependencies = 2, recentModule = None,
      recentDependency = Some (edge ''B'' ''C'')\<rparr>"

text \<open>
  Two disjoint chains, declared interleaved: \<open>get("A", true)\<close>, \<open>get("X", true)\<close>,
  \<open>connect("A", "B")\<close>, \<open>connect("X", "Y")\<close>.
\<close>

definition example_two_chains :: ModuleCollection where
  "example_two_chains =
     \<lparr>modules = [linked_Module ''A'' [''B''] [], linked_Module ''X'' [''Y''] [],
                 linked_Module ''B'' [] [''A''], linked_Module ''Y'' [] [''X'']],
      numberOfModules = 4, sources = [], dependencies = [edge ''A'' ''B'', edge ''X'' ''Y''],
      numberOfDependencies = 2, recentModule = None,
      recentDependency = Some (edge ''X'' ''Y'')\<rparr>"

text \<open>
  Three modules and no edge.
\<close>

definition example_isolated :: ModuleCollection where
  "example_isolated =
     \<lparr>modules = [empty_Module ''A'', empty_Module ''B'', empty_Module ''C''],
      numberOfModules = 3, sources = [], dependencies = [],
      numberOfDependencies = 0, recentModule = None, recentDependency = None\<rparr>"

text \<open>
  The cycle A requires B, B requires C, C requires A, and the collection as
  \<open>serialize\<close> leaves it.
\<close>

definition example_cycle :: ModuleCollection where
  "example_cycle =
     \<lparr>modules = [linked_Module ''A'' [''B''] [''C''], linked_Module ''B'' [''C''] [''A''],
                 linked_Module ''C'' [''A''] [''B'']],
      numberOfModules = 3, sources = [],
      dependencies = [edge ''A'' ''B'', edge ''B'' ''C'', edge ''C'' ''A''],
      numberOfDependencies = 3, recentModule = None,
      recentDependency = Some (edge ''C'' ''A'')\<rparr>"

definition example_cycle_failed :: ModuleCollection where
  "example_cycle_failed =
     example_cycle\<lparr>modules :=
       [(linked_Module ''A'' [''B''] [''C''])\<lparr>indexing := True, index := Some 0\<rparr>,
        (linked_Module ''B'' [''C''] [''A''])
          \<lparr>topologicalMarker := True, indexing := True, index := Some 0\<rparr>,
        (linked_Module ''C'' [''A''] [''B''])
          \<lparr>topologicalMarker := True, indexing := True, index := Some 0\<rparr>]\<rparr>"

text \<open>
  A cycle with a tail: \<open>connect("R", "A")\<close>, \<open>connect("A", "B")\<close>,
  \<open>connect("B", "A")\<close>; the collection as a first and as a second \<open>serialize\<close>
  leave it.
\<close>

definition example_tail :: ModuleCollection where
  "example_tail =
     \<lparr>modules = [linked_Module ''R'' [''A''] [], linked_Module ''A'' [''B''] [''R'', ''B''],
                 linked_Module ''B'' [''A''] [''A'']],
      numberOfModules = 3, sources = [],
      dependencies = [edge ''R'' ''A'', edge ''A'' ''B'', edge ''B'' ''A''],
      numberOfDependencies = 3, recentModule = None,
      recentDependency = Some (edge ''B'' ''A'')\<rparr>"

definition example_tail_failed :: ModuleCollection where
  "example_tail_failed =
     example_tail\<lparr>modules :=
       [(linked_Module ''R'' [''A''] [])
          \<lparr>topologicalMarker := True, indexing := True, index := Some 0\<rparr>,
        (linked_Module ''A'' [''B''] [''R'', ''B''])\<lparr>indexing := True, index := Some 0\<rparr>,
        (linked_Module ''B'' [''A''] [''A''])
          \<lparr>topologicalMarker := True, indexing := True, index := Some 0\<rparr>]\<rparr>"

definition example_tail_failed_again :: ModuleCollection where
  "example_tail_failed_again =
     example_tail\<lparr>modules :=
       [(linked_Module ''R'' [''A''] [])\<lparr>indexing := True, index := Some 0\<rparr>,
        (linked_Module ''A'' [''B''] [''R'', ''B''])\<lparr>indexing := True, index := Some 0\<rparr>,
        (linked_Module ''B'' [''A''] [''A''])
          \<lparr>topologicalMarker := True, indexing := True, index := Some 0\<rparr>]\<rparr>"

section \<open>Basic facts\<close>

lemma dropWhile_id_iff: "dropWhile P xs = xs \<longleftrightarrow> (xs = [] \<or> \<not> P (hd xs))"
  by (cases xs) (auto simp: dropWhile_eq_Cons_conv)

lemma hd_dropWhile_rev:
  assumes "xs \<noteq> []" "\<not> P (hd xs)"
  shows "rev (dropWhile P (rev xs)) \<noteq> [] \<and> hd (rev (dropWhile P (rev xs))) = hd xs"
  by (metis assms(1,2) dropWhile_eq_Nil_conv dropWhile_last hd_rev
    last_in_set rev.simps(1) rev_rev_ident)

lemma trim_trim: "trim (trim s) = trim s"
proof -
  let ?t = "dropWhile is_space s"
  let ?u = "rev (dropWhile is_space (rev ?t))"
  have t: "?t = [] \<or> \<not> is_space (hd ?t)"
    by (metis hd_dropWhile)
  have u1: "dropWhile is_space ?u = ?u"
  proof (cases "?t = []")
    case True
    show ?thesis unfolding True by simp
  next
    case False
    with t have "\<not> is_space (hd ?t)" by blast
    with False hd_dropWhile_rev[of "dropWhile is_space s" is_space] show ?thesis
      by (simp add: dropWhile_id_iff)
  qed
  have u2: "dropWhile is_space (rev ?u) = rev ?u"
    by simp
  show ?thesis
    unfolding trim_def using u1 u2 by simp
qed

lemma lookup_name: "lookup ms n = Some m \<Longrightarrow> name m = n"
  unfolding lookup_def by (induction ms) (auto split: if_splits)

lemma lookup_own_insert:
  "lookup ms (name m) = None \<Longrightarrow>
   lookup (own_insert name m ms) k = (if k = name m then Some m else lookup ms k)"
  unfolding lookup_def by (induction ms) (auto split: option.splits)

lemma lookup_map:
  "(\<And>m. name (g m) = name m) \<Longrightarrow> lookup (map g ms) k = map_option g (lookup ms k)"
  unfolding lookup_def by (induction ms) auto

lemma lookup_modify:
  "(\<And>m. name (f m) = name m) \<Longrightarrow>
   lookup (modify n f ms) k = (if k = n then map_option f (lookup ms k) else lookup ms k)"
  unfolding lookup_def modify_def by (induction ms) auto

lemma set_own_insert: "set (own_insert key x ys) = insert x (set ys)"
  by (induction ys) (auto split: option.splits)

lemma empty_not_inherited: "[] \<notin> set object_prototype_keys"
  by (simp add: object_prototype_keys_def)

lemma new_Module_plain:
  "n \<noteq> [] \<Longrightarrow> trim n = n \<Longrightarrow> new_Module n None = Inr (empty_Module n)"
  by (simp add: new_Module_def stringLike_def)

lemma new_Module_name: "new_Module n src = Inr m \<Longrightarrow> name m = trim n \<and> n \<noteq> []"
  by (auto simp: new_Module_def stringLike_def Module_define_def Module_defined_def
      empty_Module_def split: if_splits sum.splits option.splits)

section \<open>Fetching and connecting modules\<close>

lemma get_found:
  "nm \<noteq> [] \<Longrightarrow> lookup (modules c) (trim nm) = Some m \<Longrightarrow>
   get c nm anyway = (Inr (ModuleRef (trim nm)), c)"
  by (simp add: get_def stringLike_def)

lemma get_create:
  assumes "trim nm \<noteq> []" "trim nm \<notin> set object_prototype_keys"
  shows "\<exists>c1 m. get c nm True = (Inr (ModuleRef (trim nm)), c1)
           \<and> lookup (modules c1) (trim nm) = Some m
           \<and> dependencies c1 = dependencies c
           \<and> numberOfDependencies c1 = numberOfDependencies c"
proof -
  from assms(1) have nm: "nm \<noteq> []" by (auto simp: trim_def)
  show ?thesis
  proof (cases "lookup (modules c) (trim nm)")
    case (Some m)
    with nm show ?thesis by (simp add: get_found)
  next
    case None
    then show ?thesis
      using assms nm
      by (simp add: get_def stringLike_def new_Module_plain trim_trim lookup_own_insert
          empty_Module_def)
  qed
qed

lemma get_True_Inr:
  assumes "get c nm True = (Inr v, c1)"
  shows "nm \<noteq> [] \<and> dependencies c1 = dependencies c
         \<and> numberOfDependencies c1 = numberOfDependencies c
         \<and> ((v = ModuleRef (trim nm) \<and> lookup (modules c1) (trim nm) \<noteq> None)
              \<or> (\<exists>k. v = Builtin k \<and> c1 = c))"
  using assms
  by (auto simp: get_def stringLike_def Let_def trim_trim lookup_own_insert
      split: if_splits option.splits sum.splits dest!: new_Module_name)

text \<open>
  Claim C10. A name that is not empty but consists of white space only passes
  \<open>lib.stringLike\<close> and trims to the empty string; \<open>get\<close> with \<open>anyway\<close> then
  increments \<open>numberOfModules\<close>, the constructor throws, and no module is stored:
  the counter exceeds the number of stored modules.
\<close>

theorem get_blank_name:
  assumes "nm \<noteq> []" and "trim nm = []" and "lookup (modules c) [] = None"
    and "length (modules c) \<le> numberOfModules c"
  shows "\<exists>c'. get c nm True = (Inl TypeError, c') \<and> modules c' = modules c
           \<and> numberOfModules c' = numberOfModules c + 1
           \<and> length (modules c') < numberOfModules c'"
  using assms
  by (simp add: get_def stringLike_def new_Module_def empty_not_inherited)

theorem get_blank_name_witness:
  "'' '' \<noteq> [] \<and> trim '' '' = [] \<and> lookup (modules new_ModuleCollection) [] = None
   \<and> length (modules new_ModuleCollection) \<le> numberOfModules new_ModuleCollection
   \<and> (\<exists>c'. get new_ModuleCollection '' '' True = (Inl TypeError, c')
          \<and> modules c' = modules new_ModuleCollection
          \<and> numberOfModules c' = numberOfModules new_ModuleCollection + 1
          \<and> length (modules c') < numberOfModules c')"
proof -
  have h: "'' '' \<noteq> []" "trim '' '' = []" "lookup (modules new_ModuleCollection) [] = None"
    "length (modules new_ModuleCollection) \<le> numberOfModules new_ModuleCollection"
    by (simp_all add: trim_def is_space_def new_ModuleCollection_def lookup_def)
  from get_blank_name[OF h] h show ?thesis by blast
qed

text \<open>
  \<open>connect\<close> with the same name at both ends throws the self-dependency message
  when the name is not blank and is no key that the \<open>modules\<close> object inherits
  from \<open>Object.prototype\<close>; the sequence of dependencies and their counter are
  as before the call.
\<close>

theorem connect_self:
  assumes "trim a \<noteq> []" and "trim a \<notin> set object_prototype_keys"
  shows "\<exists>c'. connect c a a = (Inl SelfDependency, c')
           \<and> dependencies c' = dependencies c
           \<and> numberOfDependencies c' = numberOfDependencies c"
proof -
  from assms(1) have nm: "a \<noteq> []" by (auto simp: trim_def)
  from get_create[OF assms, of c] obtain c1 m where
    g1: "get c a True = (Inr (ModuleRef (trim a)), c1)"
    and l1: "lookup (modules c1) (trim a) = Some m"
    and d1: "dependencies c1 = dependencies c" "numberOfDependencies c1 = numberOfDependencies c"
    by blast
  have g2: "get c1 a True = (Inr (ModuleRef (trim a)), c1)"
    using nm l1 by (rule get_found)
  have "new_Dependency (modules c1) (ModuleRef (trim a)) (ModuleRef (trim a)) = Inl SelfDependency"
    using l1 by (simp add: new_Dependency_def Module_require_def)
  with g1 g2 d1 show ?thesis
    by (simp add: connect_def)
qed

theorem connect_self_witness:
  "trim ''A'' \<noteq> [] \<and> trim ''A'' \<notin> set object_prototype_keys
   \<and> (\<exists>c'. connect example_AB ''A'' ''A'' = (Inl SelfDependency, c')
          \<and> dependencies c' = dependencies example_AB
          \<and> numberOfDependencies c' = numberOfDependencies example_AB)"
proof -
  have h: "trim ''A'' \<noteq> []" "trim ''A'' \<notin> set object_prototype_keys"
    by (simp_all add: trim_def is_space_def object_prototype_keys_def)
  from connect_self[OF h, of example_AB] h show ?thesis by blast
qed

text \<open>
  Claim C6. When \<open>connect(a, b)\<close> has returned an edge, the same call again throws
  the duplicate-edge message and changes nothing: over both calls one edge was
  pushed and the counter grew by one.
\<close>

theorem connect_twice:
  assumes "connect c a b = (Inr d, c1)"
  shows "connect c1 a b = (Inl DuplicateEdge, c1)
         \<and> numberOfDependencies c1 = numberOfDependencies c + 1
         \<and> dependencies c1 = dependencies c @ [d]"
proof -
  from assms obtain va ca vb cb ms where
    ga: "get c a True = (Inr va, ca)" and gb: "get ca b True = (Inr vb, cb)"
    and nd: "new_Dependency (modules cb) va vb = Inr (d, ms)"
    and c1: "c1 = cb\<lparr>modules := ms, recentDependency := Some d,
                     dependencies := dependencies cb @ [d],
                     numberOfDependencies := numberOfDependencies cb + 1\<rparr>"
    by (auto simp: connect_def split: prod.splits sum.splits)
  from nd obtain a' b' where va: "va = ModuleRef a'" and vb: "vb = ModuleRef b'"
    and rq: "Module_require (modules cb) a' (ModuleRef b') = Inr ms"
    by (auto simp: new_Dependency_def split: jsval.splits sum.splits)
  from rq obtain t q where t: "lookup (modules cb) a' = Some t"
    and q: "lookup (modules cb) b' = Some q" and ne: "name t \<noteq> name q"
    and ms: "ms = modify (name q)
               (\<lambda>m. m\<lparr>dependants := own_insert id (name t) (dependants m),
                      numberOfDependants := numberOfDependants m + 1\<rparr>)
               (modify (name t)
                  (\<lambda>m. m\<lparr>requires := own_insert id (name q) (requires m),
                         numberOfRequirements := numberOfRequirements m + 1\<rparr>)
                  (modules cb))"
    by (auto simp: Module_require_def split: option.splits if_splits)
  have nt: "name t = a'" and nq: "name q = b'"
    using t q by (auto dest: lookup_name)
  from ga va have a': "a' = trim a" "a \<noteq> []" and da: "dependencies ca = dependencies c"
      "numberOfDependencies ca = numberOfDependencies c"
    by (auto dest!: get_True_Inr)
  from gb vb have b': "b' = trim b" "b \<noteq> []" and db: "dependencies cb = dependencies ca"
      "numberOfDependencies cb = numberOfDependencies ca"
    by (auto dest!: get_True_Inr)
  have la: "lookup (modules c1) a' =
      Some (t\<lparr>requires := own_insert id b' (requires t),
              numberOfRequirements := numberOfRequirements t + 1\<rparr>)"
    using t q ne nt nq by (simp add: c1 ms lookup_modify)
  have lb: "lookup (modules c1) b' =
      Some (q\<lparr>dependants := own_insert id a' (dependants q),
              numberOfDependants := numberOfDependants q + 1\<rparr>)"
    using t q ne nt nq by (simp add: c1 ms lookup_modify)
  have g1: "get c1 a True = (Inr (ModuleRef a'), c1)"
    using la a' by (simp add: get_found)
  have g2: "get c1 b True = (Inr (ModuleRef b'), c1)"
    using lb b' by (simp add: get_found)
  have "new_Dependency (modules c1) (ModuleRef a') (ModuleRef b') = Inl DuplicateEdge"
    using la lb ne nt nq
    by (simp add: new_Dependency_def Module_require_def has_property_def set_own_insert)
  with g1 g2 show ?thesis
    by (simp add: connect_def c1 da db)
qed

lemmas eval_defs =
  connect_def get_def add_def stringLike_def trim_def is_space_def lookup_def modify_def
  new_Module_def empty_Module_def linked_Module_def edge_def Module_define_def
  Module_defined_def new_Dependency_def Module_require_def has_property_def
  object_prototype_keys_def new_ModuleCollection_def array_index_def get_property_def
  set_property_def getBySource_def

lemma connect_new_AB:
  "connect new_ModuleCollection ''A'' ''B'' = (Inr (edge ''A'' ''B''), example_AB)"
  by (simp add: eval_defs example_AB_def)

theorem connect_twice_witness:
  "connect new_ModuleCollection ''A'' ''B'' = (Inr (edge ''A'' ''B''), example_AB)
   \<and> connect example_AB ''A'' ''B'' = (Inl DuplicateEdge, example_AB)
   \<and> numberOfDependencies example_AB = numberOfDependencies new_ModuleCollection + 1
   \<and> dependencies example_AB = dependencies new_ModuleCollection @ [edge ''A'' ''B'']"
  using connect_twice[OF connect_new_AB] connect_new_AB by blast

text \<open>
  For every name, \<open>connect\<close> with the same name at both ends throws, and the
  sequence of dependencies and their counter are as before the call.
\<close>

lemma connect_same_fails:
  "\<exists>e c'. connect c a a = (Inl e, c')
     \<and> dependencies c' = dependencies c
     \<and> numberOfDependencies c' = numberOfDependencies c"
proof -
  obtain r1 c1 where g1: "get c a True = (r1, c1)" by (cases "get c a True")
  have d1: "dependencies c1 = dependencies c \<and> numberOfDependencies c1 = numberOfDependencies c"
    using g1 by (auto simp: get_def Let_def split: sum.splits option.splits if_splits)
  show ?thesis
  proof (cases r1)
    case (Inl e)
    with g1 d1 show ?thesis by (simp add: connect_def)
  next
    case (Inr v)
    from get_True_Inr[OF g1[unfolded Inr]] have nm: "a \<noteq> []"
      and cs: "(v = ModuleRef (trim a) \<and> lookup (modules c1) (trim a) \<noteq> None)
              \<or> (\<exists>k. v = Builtin k \<and> c1 = c)" by simp_all
    from cs show ?thesis
    proof
      assume m: "v = ModuleRef (trim a) \<and> lookup (modules c1) (trim a) \<noteq> None"
      then obtain x where l1: "lookup (modules c1) (trim a) = Some x" by auto
      have g2: "get c1 a True = (Inr (ModuleRef (trim a)), c1)"
        using nm l1 by (rule get_found)
      have "new_Dependency (modules c1) (ModuleRef (trim a)) (ModuleRef (trim a))
              = Inl SelfDependency"
        using l1 by (simp add: new_Dependency_def Module_require_def)
      with g1 Inr m g2 d1 show ?thesis by (simp add: connect_def)
    next
      assume "\<exists>k. v = Builtin k \<and> c1 = c"
      then obtain k where k: "v = Builtin k" "c1 = c" by blast
      obtain r2 c2 where g2: "get c a True = (r2, c2)" by (cases "get c a True")
      with g1 Inr k have "r2 = Inr (Builtin k)" "c2 = c" by simp_all
      with g1 Inr k show ?thesis by (simp add: connect_def new_Dependency_def)
    qed
  qed
qed

text \<open>
  Claim C7. \<open>connect("toString", "toString")\<close> on a new collection does not throw the
  self-dependency message. \<open>this.modules["toString"]\<close> is the function that the
  plain object \<open>modules\<close> inherits from \<open>Object.prototype\<close>, so \<open>get\<close> returns
  it for both ends and creates no module; the function has no method \<open>require\<close>,
  and the constructor of the edge throws a \<open>TypeError\<close> before
  \<open>Module.prototype.require\<close> can compare the names. The collection is unchanged.
\<close>

theorem connect_self_inherited_name:
  "connect new_ModuleCollection ''toString'' ''toString''
     = (Inl TypeError, new_ModuleCollection)"
  by (simp add: eval_defs)

text \<open>
  Claim C4. \<open>add("A", "a.js")\<close> on a new collection stores the inner object under
  the key \<open>A\<close>, the module's name, and enters the module into it under \<open>a.js\<close>:
  the registry has no entry under the source path, and \<open>getBySource("a.js")\<close>
  finds nothing.
\<close>

theorem add_registers_under_name:
  "add new_ModuleCollection ''A'' (Some ''a.js'') = (Inr ''A'', example_added)
   \<and> sources example_added = [(''A'', [(''a.js'', ''A'')])]
   \<and> getBySource example_added ''a.js'' = Absent"
  by (simp add: eval_defs example_added_def)

text \<open>
  Claim C5. A module that was only named as a requirement has no source; \<open>clone\<close>
  passes this \<open>undefined\<close> source to \<open>add\<close>, where \<open>lib.stringLike\<close> throws. The
  collection after \<open>connect("A", "B")\<close> cannot be cloned.
\<close>

theorem clone_with_orphan_fails:
  "connect new_ModuleCollection ''A'' ''B'' = (Inr (edge ''A'' ''B''), example_AB)
   \<and> clone example_AB = Inl TypeError"
proof -
  have "clone example_AB = Inl TypeError"
    by (simp add: clone_def Module_clone_def eval_defs example_AB_def)
  with connect_new_AB show ?thesis by blast
qed

section \<open>Analysis of a collection\<close>

lemma analyser_loop_eq:
  "orphanModules (analyser_loop ms stat) =
     orphanModules stat @ map name (filter (\<lambda>m. source m = None) ms)
   \<and> definedModules (analyser_loop ms stat) =
     definedModules stat @ map name (filter (\<lambda>m. source m \<noteq> None) ms)
   \<and> numberOfExports (analyser_loop ms stat) =
     numberOfExports stat + sum_list (map (\<lambda>m. length (exports m)) ms)"
  by (induction ms arbitrary: stat) (auto simp: Module_defined_def)

lemma analyse_eq:
  "orphanModules (analyse c) = map name (filter (\<lambda>m. source m = None) (modules c))"
  "definedModules (analyse c) = map name (filter (\<lambda>m. source m \<noteq> None) (modules c))"
  "numberOfExports (analyse c) = sum_list (map (\<lambda>m. length (exports m)) (modules c))"
  by (simp_all add: analyse_def analysers_def analyser_loop_eq)

lemma get_modules_cases:
  assumes "get c nm True = (Inr v, c1)"
  shows "(modules c1 = modules c \<and> (v = ModuleRef (trim nm) \<longrightarrow> lookup (modules c) (trim nm) \<noteq> None))
       \<or> (lookup (modules c) (trim nm) = None \<and> v = ModuleRef (trim nm)
            \<and> modules c1 = own_insert name (empty_Module (trim nm)) (modules c))"
  using assms
  by (auto simp: get_def stringLike_def Let_def new_Module_def trim_trim
      split: if_splits option.splits sum.splits)

lemma lookup_None_iff: "lookup ms k = None \<longleftrightarrow> k \<notin> name ` set ms"
  unfolding lookup_def by (auto simp: find_None_iff)

lemma lookup_in_set: "lookup ms k = Some m \<Longrightarrow> m \<in> set ms"
  unfolding lookup_def by (induction ms) (auto split: if_splits)

lemma name_empty_Module [simp]: "name (empty_Module n) = n"
  by (simp add: empty_Module_def)

lemma source_empty_Module [simp]: "source (empty_Module n) = None"
  by (simp add: empty_Module_def)

lemma set_modify: "set (modify n f ms) = (\<lambda>m. if name m = n then f m else m) ` set ms"
  by (simp add: modify_def)

lemma names_modify:
  "(\<And>m. name (f m) = name m) \<Longrightarrow> name ` set (modify n f ms) = name ` set ms"
  by (induction ms) (auto simp: modify_def)

lemma orphan_modify:
  "(\<And>m. name (f m) = name m) \<Longrightarrow> (\<And>m. source (f m) = source m) \<Longrightarrow>
   (\<forall>m \<in> set (modify n f ms). name m = k \<longrightarrow> source m = None)
     \<longleftrightarrow> (\<forall>m \<in> set ms. name m = k \<longrightarrow> source m = None)"
  by (induction ms) (auto simp: modify_def)

lemma in_names_filter:
  "k \<in> set (map name (filter P ms)) \<longleftrightarrow> (\<exists>m \<in> set ms. name m = k \<and> P m)"
  by auto

lemma connect_modules:
  assumes "connect c a b = (Inr d, c1)" "lookup (modules c) (trim b) = None"
  shows "(\<exists>m \<in> set (modules c1). name m = trim b)
         \<and> (\<forall>m \<in> set (modules c1). name m = trim b \<longrightarrow> source m = None)"
proof -
  from assms obtain va ca vb cb ms where
    ga: "get c a True = (Inr va, ca)" and gb: "get ca b True = (Inr vb, cb)"
    and nd: "new_Dependency (modules cb) va vb = Inr (d, ms)"
    and c1: "modules c1 = ms"
    by (auto simp: connect_def split: prod.splits sum.splits)
  from nd obtain a' b' where va: "va = ModuleRef a'" and vb: "vb = ModuleRef b'"
    and rq: "Module_require (modules cb) a' (ModuleRef b') = Inr ms"
    by (auto simp: new_Dependency_def split: jsval.splits sum.splits)
  from rq obtain t q where t: "lookup (modules cb) a' = Some t"
    and q: "lookup (modules cb) b' = Some q" and ne: "name t \<noteq> name q"
    and ms: "ms = modify (name q)
               (\<lambda>m. m\<lparr>dependants := own_insert id (name t) (dependants m),
                      numberOfDependants := numberOfDependants m + 1\<rparr>)
               (modify (name t)
                  (\<lambda>m. m\<lparr>requires := own_insert id (name q) (requires m),
                         numberOfRequirements := numberOfRequirements m + 1\<rparr>)
                  (modules cb))"
    by (auto simp: Module_require_def split: option.splits if_splits)
  have nt: "name t = a'" and nq: "name q = b'"
    using t q by (auto dest: lookup_name)
  from ga va have a': "a' = trim a" by (auto dest!: get_True_Inr)
  from gb vb have b': "b' = trim b" by (auto dest!: get_True_Inr)
  have ab: "trim a \<noteq> trim b" using ne nt nq a' b' by simp
  have la: "lookup (modules ca) (trim b) = None"
    using get_modules_cases[OF ga] assms(2) ab
    by (auto simp: lookup_own_insert)
  with get_modules_cases[OF gb] vb b'
  have cb: "modules cb = own_insert name (empty_Module (trim b)) (modules ca)"
    by auto
  have 1: "trim b \<in> name ` set (modules cb)"
    by (simp add: cb set_own_insert)
  have 2: "\<forall>m \<in> set (modules cb). name m = trim b \<longrightarrow> source m = None"
    using la by (force simp: cb set_own_insert lookup_None_iff)
  have "trim b \<in> name ` set (modules c1)"
    unfolding c1 ms using 1 by (simp add: names_modify)
  moreover have "\<forall>m \<in> set (modules c1). name m = trim b \<longrightarrow> source m = None"
    unfolding c1 ms using 2 by (simp add: orphan_modify)
  ultimately show ?thesis by auto
qed

lemma add_modules:
  assumes "add c nm (Some src) = (Inr r, c2)"
  shows "(\<exists>m \<in> set (modules c2). name m = trim nm)
         \<and> (\<forall>m \<in> set (modules c2). name m = trim nm \<longrightarrow> source m \<noteq> None)"
proof -
  obtain res c1 where g: "get c nm True = (res, c1)" by (cases "get c nm True")
  show ?thesis
  proof (cases res)
    case (Inl e)
    with assms g have False by (simp add: add_def)
    then show ?thesis ..
  next
    case (Inr v)
    show ?thesis
    proof (cases v)
      case (ModuleRef n)
      from g Inr ModuleRef have n: "n = trim nm" by (auto dest!: get_True_Inr)
      show ?thesis
      proof (cases "lookup (modules c1) n")
        case None
        with assms g Inr ModuleRef have False by (simp add: add_def)
        then show ?thesis ..
      next
        case (Some m)
        show ?thesis
        proof (cases "Module_define m (Some src)")
          case (Inl e)
          with assms g Inr ModuleRef Some have False by (simp add: add_def)
          then show ?thesis ..
        next
          case d: (Inr m')
          have "modules (snd (add c nm (Some src))) = modify n (\<lambda>_. m') (modules c1)"
            using g Inr ModuleRef Some d
            by (simp add: add_def Let_def split: option.split property.split)
          with assms have c2: "modules c2 = modify n (\<lambda>_. m') (modules c1)" by simp
          from d have m': "name m' = name m" "source m' \<noteq> None"
            by (auto simp: Module_define_def split: if_splits sum.splits)
          from Some have mn: "name m = n" by (rule lookup_name)
          from Some have ms: "m \<in> set (modules c1)" by (rule lookup_in_set)
          have "(if name m = n then m' else m) \<in> set (modules c2)"
            unfolding c2 set_modify using ms by (rule imageI)
          then have in2: "m' \<in> set (modules c2)" using mn by simp
          have all2: "\<forall>x \<in> set (modules c2). name x = n \<longrightarrow> x = m'"
            unfolding c2 set_modify by (auto split: if_splits)
          show ?thesis
          proof
            show "\<exists>x \<in> set (modules c2). name x = trim nm"
              using in2 m'(1) mn n by (intro bexI[of _ m']) simp_all
            show "\<forall>x \<in> set (modules c2). name x = trim nm \<longrightarrow> source x \<noteq> None"
              using all2 m'(2) n by blast
          qed
        qed
      qed
    next
      case (Builtin k)
      with assms g Inr have False by (simp add: add_def)
      then show ?thesis ..
    next
      case Undefined
      with assms g Inr have False by (simp add: add_def)
      then show ?thesis ..
    qed
  qed
qed


lemma in_orphanModules:
  "k \<in> set (orphanModules (analyse c)) \<longleftrightarrow> (\<exists>m \<in> set (modules c). name m = k \<and> source m = None)"
  by (simp only: analyse_eq in_names_filter)

lemma in_definedModules:
  "k \<in> set (definedModules (analyse c)) \<longleftrightarrow> (\<exists>m \<in> set (modules c). name m = k \<and> source m \<noteq> None)"
  by (simp only: analyse_eq in_names_filter)


lemma orphan_after_connect:
  assumes "lookup (modules c) (trim b) = None" "connect c a b = (Inr d, c1)"
  shows "trim b \<in> set (orphanModules (analyse c1))
         \<and> trim b \<notin> set (definedModules (analyse c1))"
proof -
  note 1 = connect_modules[OF assms(2,1)]
  from 1 obtain m where m: "m \<in> set (modules c1)" "name m = trim b" by auto
  with 1 have "source m = None" by auto
  with m have "trim b \<in> set (orphanModules (analyse c1))"
    unfolding in_orphanModules by (intro bexI[of _ m]) simp_all
  moreover have "trim b \<notin> set (definedModules (analyse c1))"
    unfolding in_definedModules using 1 by auto
  ultimately show ?thesis ..
qed

lemma defined_after_add:
  assumes "add c1 b (Some src) = (Inr r, c2)"
  shows "trim b \<in> set (definedModules (analyse c2))
         \<and> trim b \<notin> set (orphanModules (analyse c2))"
proof -
  note 2 = add_modules[OF assms]
  from 2 obtain m where m: "m \<in> set (modules c2)" "name m = trim b" by auto
  with 2 have "source m \<noteq> None" by auto
  with m have "trim b \<in> set (definedModules (analyse c2))"
    unfolding in_definedModules by (intro bexI[of _ m]) simp_all
  moreover have "trim b \<notin> set (orphanModules (analyse c2))"
    unfolding in_orphanModules using 2 by auto
  ultimately show ?thesis ..
qed

text \<open>
  Claim C9. The built-in analyser lists under \<open>definedModules\<close> the modules that
  have a source and under \<open>orphanModules\<close> the others, each in enumeration order,
  and \<open>numberOfExports\<close> is the sum of the lengths of the \<open>exports\<close> arrays. A module
  that \<open>connect\<close> created as a requirement is an orphan and not defined; once \<open>add\<close>
  has returned for it, it is defined and no orphan.
\<close>

theorem analyse_partition:
  "definedModules (analyse c) = map name (filter (\<lambda>m. source m \<noteq> None) (modules c))
   \<and> orphanModules (analyse c) = map name (filter (\<lambda>m. source m = None) (modules c))
   \<and> numberOfExports (analyse c) = sum_list (map (\<lambda>m. length (exports m)) (modules c))
   \<and> (lookup (modules c) (trim b) = None \<longrightarrow> connect c a b = (Inr d, c1) \<longrightarrow>
        trim b \<in> set (orphanModules (analyse c1))
        \<and> trim b \<notin> set (definedModules (analyse c1))
        \<and> (add c1 b (Some src) = (Inr r, c2) \<longrightarrow>
             trim b \<in> set (definedModules (analyse c2))
             \<and> trim b \<notin> set (orphanModules (analyse c2))))"
proof (intro conjI impI)
  show "definedModules (analyse c) = map name (filter (\<lambda>m. source m \<noteq> None) (modules c))"
    by (rule analyse_eq)
  show "orphanModules (analyse c) = map name (filter (\<lambda>m. source m = None) (modules c))"
    by (rule analyse_eq)
  show "numberOfExports (analyse c) = sum_list (map (\<lambda>m. length (exports m)) (modules c))"
    by (rule analyse_eq)
next
  assume h: "lookup (modules c) (trim b) = None" "connect c a b = (Inr d, c1)"
  from orphan_after_connect[OF h] show "trim b \<in> set (orphanModules (analyse c1))" ..
  from orphan_after_connect[OF h] show "trim b \<notin> set (definedModules (analyse c1))" ..
  assume h2: "add c1 b (Some src) = (Inr r, c2)"
  from defined_after_add[OF h2] show "trim b \<in> set (definedModules (analyse c2))" ..
  from defined_after_add[OF h2] show "trim b \<notin> set (orphanModules (analyse c2))" ..
qed

lemma add_B_to_AB:
  "add example_AB ''B'' (Some ''b.js'') = (Inr ''B'', example_B_added)"
  by (simp add: eval_defs example_AB_def example_B_added_def)

theorem analyse_partition_witness:
  "lookup (modules new_ModuleCollection) (trim ''B'') = None
   \<and> connect new_ModuleCollection ''A'' ''B'' = (Inr (edge ''A'' ''B''), example_AB)
   \<and> add example_AB ''B'' (Some ''b.js'') = (Inr ''B'', example_B_added)
   \<and> orphanModules (analyse example_AB) = [''A'', ''B'']
   \<and> definedModules (analyse example_AB) = []
   \<and> trim ''B'' \<in> set (orphanModules (analyse example_AB))
   \<and> trim ''B'' \<notin> set (definedModules (analyse example_AB))
   \<and> trim ''B'' \<in> set (definedModules (analyse example_B_added))
   \<and> trim ''B'' \<notin> set (orphanModules (analyse example_B_added))"
proof -
  have h: "lookup (modules new_ModuleCollection) (trim ''B'') = None"
    by (simp add: new_ModuleCollection_def lookup_def)
  have e: "orphanModules (analyse example_AB) = [''A'', ''B'']"
    "definedModules (analyse example_AB) = []"
    by (simp_all add: analyse_eq example_AB_def linked_Module_def empty_Module_def)
  from analyse_partition[where c = new_ModuleCollection and b = "''B''" and a = "''A''"
      and d = "edge ''A'' ''B''" and ?c1.0 = example_AB and src = "''b.js''" and r = "''B''"
      and ?c2.0 = example_B_added]
    h connect_new_AB add_B_to_AB e
  show ?thesis by simp
qed

section \<open>Frames of the topological sort\<close>

lemma sort_frame_refl: "sort_frame ms ms"
  by (simp add: sort_frame_def)

lemma sort_frame_trans: "sort_frame a b \<Longrightarrow> sort_frame b c \<Longrightarrow> sort_frame a c"
  by (simp add: sort_frame_def)

lemma name_unmarked: "name (unmarked m) = name m"
  by (simp add: unmarked_def)

lemma unmarked_name: "unmarked a = unmarked b \<Longrightarrow> name a = name b"
  by (metis name_unmarked)

lemma sort_frame_modify:
  assumes "\<And>m. unmarked (f m) = unmarked m"
  shows "sort_frame ms (modify n f ms)"
proof -
  have "\<And>m. name (f m) = name m" using assms by (rule unmarked_name)
  then show ?thesis
    by (simp add: sort_frame_def lookup_modify option.map_comp o_def assms)
qed

lemma sort_frame_present: "sort_frame ms ms' \<Longrightarrow> present ms' = present ms"
  unfolding sort_frame_def present_def
  by (metis (no_types, opaque_lifting) option.map_disc_iff)

lemma sort_ok_refl: "sort_ok ms ms"
  by (auto simp: sort_ok_def)

lemma sort_ok_trans: "sort_ok a b \<Longrightarrow> sort_ok b c \<Longrightarrow> sort_ok a c"
  unfolding sort_ok_def by blast

lemma gray_mark:
  "lookup ms n = Some m \<Longrightarrow>
   gray (modify n (\<lambda>m. m\<lparr>topologicalMarker := True\<rparr>) ms) = insert n (gray ms)"
  by (auto simp: gray_def lookup_modify)

lemma black_mark:
  "black (modify n (\<lambda>m. m\<lparr>topologicalMarker := True\<rparr>) ms) = black ms"
  by (auto simp: black_def lookup_modify)

lemma gray_finish:
  "gray (modify n (\<lambda>m. m\<lparr>topologicalMarker := False, sorting := True\<rparr>) ms) = gray ms - {n}"
  by (auto simp: gray_def lookup_modify)

lemma black_finish:
  "lookup ms n = Some m \<Longrightarrow>
   black (modify n (\<lambda>m. m\<lparr>topologicalMarker := False, sorting := True\<rparr>) ms)
     = insert n (black ms)"
  by (auto simp: black_def lookup_modify)

lemma topoSort_frame:
  "collectionTopoSort fuel n st = Some (r, st') \<Longrightarrow>
     sort_frame (fst st) (fst st')
     \<and> (\<forall>u. r = Inr u \<longrightarrow> sort_ok (fst st) (fst st')
            \<and> (n \<in> present (fst st) \<longrightarrow> n \<in> black (fst st')))"
  "topoSort_requires fuel items st = Some (r, st') \<Longrightarrow>
     sort_frame (fst st) (fst st')
     \<and> (\<forall>u. r = Inr u \<longrightarrow> sort_ok (fst st) (fst st')
            \<and> set items \<inter> present (fst st) \<subseteq> black (fst st'))"
proof (induction fuel n st and fuel items st arbitrary: r st' and r st'
    rule: collectionTopoSort_topoSort_requires.induct)
  case (1 n ms sortStack)
  then show ?case by simp
next
  case (2 fuel n ms sortStack)
  show ?case
  proof (cases "lookup ms n")
    case None
    with 2(2) show ?thesis by (auto simp: sort_frame_refl)
  next
    case (Some m)
    show ?thesis
    proof (cases "topologicalMarker m")
      case True
      with 2(2) Some show ?thesis
        by (auto intro!: sort_frame_modify simp: unmarked_def)
    next
      case nm: False
      show ?thesis
      proof (cases "sorting m")
        case True
        with 2(2) Some nm show ?thesis
          by (auto simp: sort_frame_refl sort_ok_refl black_def)
      next
        case ns: False
        let ?ms0 = "modify n (\<lambda>m. m\<lparr>topologicalMarker := True\<rparr>) ms"
        have f0: "sort_frame ms ?ms0"
          by (rule sort_frame_modify) (simp add: unmarked_def)
        obtain r1 ms1 stk1 where
          loop: "topoSort_requires fuel (requires m) (?ms0, sortStack) = Some (r1, ms1, stk1)"
          using 2(2) Some nm ns by (auto split: option.splits)
        note ih = 2(1)[OF Some nm ns loop, simplified]
        from ih have f1: "sort_frame ?ms0 ms1" by simp
        show ?thesis
        proof (cases r1)
          case (Inl e)
          with 2(2) Some nm ns loop have "r = Inl e" "st' = (ms1, stk1)" by auto
          with f0 f1 show ?thesis by (auto intro: sort_frame_trans)
        next
          case (Inr u)
          let ?ms2 = "modify n (\<lambda>m. m\<lparr>topologicalMarker := False, sorting := True\<rparr>) ms1"
          from Inr 2(2) Some nm ns loop have r: "r = Inr ()" and st': "fst st' = ?ms2"
            by auto
          have f2: "sort_frame ms1 ?ms2"
            by (rule sort_frame_modify) (simp add: unmarked_def)
          from ih Inr have ok1: "sort_ok ?ms0 ms1" by simp
          have "n \<in> present ms" using Some by (simp add: present_def)
          then have "n \<in> present ms1"
            using f0 f1 by (simp add: sort_frame_present)
          then obtain m1 where m1: "lookup ms1 n = Some m1" by (auto simp: present_def)
          have ng: "n \<notin> gray ms" using Some nm by (simp add: gray_def)
          have g0: "gray ?ms0 = insert n (gray ms)" using Some by (rule gray_mark)
          have b0: "black ?ms0 = black ms" by (rule black_mark)
          have g2: "gray ?ms2 = gray ms1 - {n}" by (rule gray_finish)
          have b2: "black ?ms2 = insert n (black ms1)" using m1 by (rule black_finish)
          have "sort_ok ms ?ms2"
            using ok1 ng unfolding sort_ok_def g0 b0 g2 b2 by auto
          with f0 f1 f2 r st' b2 show ?thesis
            by (auto intro: sort_frame_trans)
        qed
      qed
    qed
  qed
next
  case (3 fuel st)
  then show ?case by (auto simp: sort_frame_refl sort_ok_refl)
next
  case (4 fuel item items st)
  from 4(3) obtain r1 st1 where
    first: "collectionTopoSort fuel item st = Some (r1, st1)"
    by (auto split: option.splits)
  note ih1 = 4(1)[OF first]
  show ?case
  proof (cases r1)
    case (Inl e)
    with 4(3) first have "r = Inl e" "st' = st1" by auto
    with ih1 show ?thesis by auto
  next
    case (Inr u)
    with 4(3) first have rest: "topoSort_requires fuel items st1 = Some (r, st')" by auto
    note ih2 = 4(2)[OF first refl Inr rest]
    from ih1 Inr have ok1: "sort_ok (fst st) (fst st1)"
      and in1: "item \<in> present (fst st) \<longrightarrow> item \<in> black (fst st1)" by auto
    from ih1 have f1: "sort_frame (fst st) (fst st1)" by simp
    from ih2 have f2: "sort_frame (fst st1) (fst st')" by simp
    have p: "present (fst st1) = present (fst st)" using f1 by (rule sort_frame_present)
    show ?thesis
    proof (intro conjI allI impI)
      show "sort_frame (fst st) (fst st')" using f1 f2 by (rule sort_frame_trans)
    next
      fix u' assume "r = Inr u'"
      with ih2 have ok2: "sort_ok (fst st1) (fst st')"
        and in2: "set items \<inter> present (fst st1) \<subseteq> black (fst st')" by auto
      show "sort_ok (fst st) (fst st')" using ok1 ok2 by (rule sort_ok_trans)
      show "set (item # items) \<inter> present (fst st) \<subseteq> black (fst st')"
        using in1 in2 ok2 p unfolding sort_ok_def by auto
    qed
  qed
qed

section \<open>Termination and failure of the topological sort\<close>

lemma unmarked_requires: "unmarked a = unmarked b \<Longrightarrow> requires a = requires b"
proof -
  assume "unmarked a = unmarked b"
  then have "requires (unmarked a) = requires (unmarked b)" by (rule arg_cong)
  then show ?thesis by (simp add: unmarked_def)
qed

lemma sort_frame_reqs: "sort_frame ms ms' \<Longrightarrow> reqs ms' = reqs ms"
proof (rule ext)
  fix k assume f: "sort_frame ms ms'"
  then have e: "map_option unmarked (lookup ms' k) = map_option unmarked (lookup ms k)"
    by (simp add: sort_frame_def)
  show "reqs ms' k = reqs ms k"
  proof (cases "lookup ms k")
    case None
    with e have "lookup ms' k = None" by simp
    with None show ?thesis by (simp add: reqs_def)
  next
    case (Some a)
    with e obtain b where b: "lookup ms' k = Some b" "unmarked b = unmarked a" by auto
    from b(2) have "requires b = requires a" by (rule unmarked_requires)
    with Some b(1) show ?thesis by (simp add: reqs_def)
  qed
qed

lemma sort_frame_req_rel: "sort_frame ms ms' \<Longrightarrow> req_rel ms' = req_rel ms"
  unfolding req_rel_def by (drule sort_frame_reqs) simp

lemma sort_frame_closed: "sort_frame ms ms' \<Longrightarrow> closed ms' = closed ms"
  unfolding closed_def by (frule sort_frame_reqs, drule sort_frame_present) simp

lemma finite_present: "finite (present ms)"
proof -
  have "present ms \<subseteq> name ` set ms"
    by (auto simp: present_def lookup_def find_None_iff)
  then show ?thesis by (rule finite_subset) simp
qed

lemma finite_white: "finite (white ms)"
  unfolding white_def using finite_present by blast

lemma sort_ok_white:
  "sort_frame ms ms' \<Longrightarrow> sort_ok ms ms' \<Longrightarrow> white ms' \<subseteq> white ms"
  unfolding white_def sort_ok_def by (drule sort_frame_present) auto

lemma topoSort_fuel:
  "card (white (fst st)) < fuel \<Longrightarrow> collectionTopoSort fuel n st \<noteq> None"
  "card (white (fst st)) < fuel \<Longrightarrow> topoSort_requires fuel items st \<noteq> None"
proof (induction fuel n st and fuel items st
    rule: collectionTopoSort_topoSort_requires.induct)
  case (1 n ms sortStack)
  then show ?case by simp
next
  case (2 fuel n ms sortStack)
  show ?case
  proof (cases "lookup ms n")
    case None
    then show ?thesis by simp
  next
    case (Some m)
    show ?thesis
    proof (cases "topologicalMarker m \<or> sorting m")
      case True
      with Some show ?thesis by auto
    next
      case False
      let ?ms0 = "modify n (\<lambda>m. m\<lparr>topologicalMarker := True\<rparr>) ms"
      have nw: "n \<in> white ms"
        using Some False by (auto simp: white_def present_def gray_def black_def)
      have f0: "sort_frame ms ?ms0"
        by (rule sort_frame_modify) (simp add: unmarked_def)
      have "white ?ms0 = white ms - {n}"
        using Some by (auto simp: white_def sort_frame_present[OF f0] gray_mark black_mark)
      then have "card (white ?ms0) = card (white ms) - 1"
        using nw finite_white by simp
      moreover have "0 < card (white ms)"
        using nw finite_white by (metis card_gt_0_iff empty_iff)
      ultimately have "card (white (fst (?ms0, sortStack))) < fuel"
        using 2(2) by simp
      with 2(1)[OF Some] False
      have "topoSort_requires fuel (requires m) (?ms0, sortStack) \<noteq> None" by simp
      with Some False show ?thesis by (auto split: sum.splits)
    qed
  qed
next
  case (3 fuel st)
  then show ?case by simp
next
  case (4 fuel item items st)
  from 4(1)[OF 4(3)] obtain r1 st1 where
    first: "collectionTopoSort fuel item st = Some (r1, st1)" by auto
  show ?case
  proof (cases r1)
    case (Inl e)
    with first show ?thesis by simp
  next
    case (Inr u)
    from topoSort_frame(1)[OF first] Inr
    have "sort_frame (fst st) (fst st1)" "sort_ok (fst st) (fst st1)" by simp_all
    then have "white (fst st1) \<subseteq> white (fst st)" by (rule sort_ok_white)
    then have "card (white (fst st1)) \<le> card (white (fst st))"
      using finite_white by (simp add: card_mono)
    with 4(3) have "card (white (fst st1)) < fuel" by simp
    from 4(2)[OF first refl Inr this] first Inr show ?thesis by simp
  qed
qed

lemma topoSort_fail:
  "collectionTopoSort fuel n st = Some (Inl e, st') \<Longrightarrow> closed (fst st) \<Longrightarrow>
     n \<in> present (fst st) \<Longrightarrow> \<forall>g \<in> gray (fst st). (g, n) \<in> (req_rel (fst st))\<^sup>+ \<Longrightarrow>
     \<exists>x. e = CyclicDependency x \<and> (x, x) \<in> (req_rel (fst st))\<^sup>+"
  "topoSort_requires fuel items st = Some (Inl e, st') \<Longrightarrow> closed (fst st) \<Longrightarrow>
     set items \<subseteq> present (fst st) \<Longrightarrow>
     \<forall>g \<in> gray (fst st). \<forall>i \<in> set items. (g, i) \<in> (req_rel (fst st))\<^sup>+ \<Longrightarrow>
     \<exists>x. e = CyclicDependency x \<and> (x, x) \<in> (req_rel (fst st))\<^sup>+"
proof (induction fuel n st and fuel items st arbitrary: st' and st'
    rule: collectionTopoSort_topoSort_requires.induct)
  case (1 n ms sortStack)
  then show ?case by simp
next
  case (2 fuel n ms sortStack)
  from 2(4) obtain m where Some: "lookup ms n = Some m" by (auto simp: present_def)
  then have nm: "name m = n" by (rule lookup_name)
  show ?case
  proof (cases "topologicalMarker m")
    case True
    with 2(2) Some nm have "e = CyclicDependency n" by auto
    moreover have "n \<in> gray ms" using Some True by (auto simp: gray_def)
    ultimately show ?thesis using 2(5) by auto
  next
    case nmk: False
    show ?thesis
    proof (cases "sorting m")
      case True
      with 2(2) Some nmk show ?thesis by simp
    next
      case ns: False
      let ?ms0 = "modify n (\<lambda>m. m\<lparr>topologicalMarker := True\<rparr>) ms"
      have f0: "sort_frame ms ?ms0"
        by (rule sort_frame_modify) (simp add: unmarked_def)
      from 2(2) Some nmk ns obtain ms1 stk1 where
        loop: "topoSort_requires fuel (requires m) (?ms0, sortStack) = Some (Inl e, ms1, stk1)"
        by (auto split: option.splits sum.splits)
      have rq: "reqs ms n = requires m" using Some by (simp add: reqs_def)
      have c0: "closed (fst (?ms0, sortStack))"
        using 2(3) sort_frame_closed[OF f0] by simp
      have "set (reqs ms n) \<subseteq> present ms" using 2(3) by (simp add: closed_def)
      then have s0: "set (requires m) \<subseteq> present (fst (?ms0, sortStack))"
        using rq sort_frame_present[OF f0] by simp
      have e0: "req_rel ?ms0 = req_rel ms" using f0 by (rule sort_frame_req_rel)
      have edge: "\<And>i. i \<in> set (requires m) \<Longrightarrow> (n, i) \<in> req_rel ms"
        using rq by (simp add: req_rel_def)
      have g0: "\<forall>g \<in> gray (fst (?ms0, sortStack)).
                  \<forall>i \<in> set (requires m). (g, i) \<in> (req_rel (fst (?ms0, sortStack)))\<^sup>+"
      proof (intro ballI)
        fix g i assume g: "g \<in> gray (fst (?ms0, sortStack))" and i: "i \<in> set (requires m)"
        from g have "g = n \<or> g \<in> gray ms" using Some by (simp add: gray_mark)
        then show "(g, i) \<in> (req_rel (fst (?ms0, sortStack)))\<^sup>+"
        proof
          assume "g = n"
          with edge[OF i] show ?thesis by (simp add: e0)
        next
          assume "g \<in> gray ms"
          with 2(5) have "(g, n) \<in> (req_rel ms)\<^sup>+" by simp
          with edge[OF i] show ?thesis by (simp add: e0 trancl_into_trancl)
        qed
      qed
      from 2(1)[OF Some nmk ns loop c0 s0 g0] show ?thesis by (simp add: e0)
    qed
  qed
next
  case (3 fuel st)
  then show ?case by simp
next
  case (4 fuel item items st)
  from 4(3) obtain r1 st1 where
    first: "collectionTopoSort fuel item st = Some (r1, st1)"
    by (auto split: option.splits)
  show ?case
  proof (cases r1)
    case (Inl e1)
    with 4(3) first have "e1 = e" by simp
    with first Inl have "collectionTopoSort fuel item st = Some (Inl e, st1)" by simp
    from 4(1)[OF this 4(4)] 4(5,6) show ?thesis by simp
  next
    case (Inr u)
    with 4(3) first have rest: "topoSort_requires fuel items st1 = Some (Inl e, st')" by simp
    from topoSort_frame(1)[OF first] Inr
    have f1: "sort_frame (fst st) (fst st1)" and ok1: "sort_ok (fst st) (fst st1)" by auto
    have e1: "req_rel (fst st1) = req_rel (fst st)" using f1 by (rule sort_frame_req_rel)
    have g1: "gray (fst st1) = gray (fst st)" using ok1 by (simp add: sort_ok_def)
    have c1: "closed (fst st1)" using 4(4) sort_frame_closed[OF f1] by simp
    have s1: "set items \<subseteq> present (fst st1)"
      using 4(5) sort_frame_present[OF f1] by simp
    have "\<forall>g \<in> gray (fst st1). \<forall>i \<in> set items. (g, i) \<in> (req_rel (fst st1))\<^sup>+"
      using 4(6) by (simp add: e1 g1)
    from 4(2)[OF first refl Inr rest c1 s1 this] show ?thesis by (simp add: e1)
  qed
qed

section \<open>The sort stack\<close>

lemma unmarked_index: "unmarked a = unmarked b \<Longrightarrow> index a = index b \<and> indexing a = indexing b"
proof -
  assume "unmarked a = unmarked b"
  then have "index (unmarked a) = index (unmarked b)"
    "indexing (unmarked a) = indexing (unmarked b)" by simp_all
  then show ?thesis by (simp add: unmarked_def)
qed

lemma sort_frame_lookup:
  assumes "sort_frame ms ms'"
  shows "(lookup ms k = None \<longrightarrow> lookup ms' k = None)
       \<and> (\<forall>a. lookup ms k = Some a \<longrightarrow> (\<exists>b. lookup ms' k = Some b \<and> unmarked b = unmarked a))"
proof -
  from assms have e: "map_option unmarked (lookup ms' k) = map_option unmarked (lookup ms k)"
    by (simp add: sort_frame_def)
  show ?thesis
  proof (cases "lookup ms k")
    case None
    with e show ?thesis by simp
  next
    case (Some a)
    with e show ?thesis by auto
  qed
qed

lemma sort_frame_index: "sort_frame ms ms' \<Longrightarrow> module_index ms' = module_index ms"
proof (rule ext)
  fix k assume f: "sort_frame ms ms'"
  show "module_index ms' k = module_index ms k"
  proof (cases "lookup ms k")
    case None
    with sort_frame_lookup[OF f, of k] show ?thesis by (simp add: module_index_def)
  next
    case (Some a)
    with sort_frame_lookup[OF f, of k] obtain b where
      b: "lookup ms' k = Some b" "unmarked b = unmarked a" by auto
    from unmarked_index[OF b(2)] Some b(1) show ?thesis by (simp add: module_index_def)
  qed
qed

lemma sort_frame_indexed: "sort_frame ms ms' \<Longrightarrow> indexed ms' = indexed ms"
proof (rule set_eqI)
  fix k assume f: "sort_frame ms ms'"
  show "k \<in> indexed ms' \<longleftrightarrow> k \<in> indexed ms"
  proof (cases "lookup ms k")
    case None
    with sort_frame_lookup[OF f, of k] show ?thesis by (simp add: indexed_def)
  next
    case (Some a)
    with sort_frame_lookup[OF f, of k] obtain b where
      b: "lookup ms' k = Some b" "unmarked b = unmarked a" by auto
    from unmarked_index[OF b(2)] Some b(1) show ?thesis by (simp add: indexed_def)
  qed
qed

lemma sort_frame_indexed_ok:
  assumes "sort_frame ms ms'"
  shows "indexed_ok ms' L = indexed_ok ms L"
  unfolding indexed_ok_def
  using sort_frame_indexed[OF assms] sort_frame_index[OF assms] sort_frame_reqs[OF assms]
  by simp

lemma indexed_ok_mono: "indexed_ok ms L \<Longrightarrow> L \<le> L' \<Longrightarrow> indexed_ok ms L'"
  unfolding indexed_ok_def by (meson le_trans)

lemma stack_inv_frame:
  assumes "sort_frame ms ms'" "black ms' = black ms"
  shows "stack_inv ms' stk = stack_inv ms stk"
  unfolding stack_inv_def bucket_ok_def ordered_def
  using assms(2) sort_frame_index[OF assms(1)] sort_frame_reqs[OF assms(1)]
  by simp

lemma ordered_snoc:
  assumes "ordered ms b" "set (reqs ms n) \<subseteq> set b"
  shows "ordered ms (b @ [n])"
  unfolding ordered_def
proof (intro allI impI)
  fix j assume "j < length (b @ [n])"
  then consider "j < length b" | "j = length b" by fastforce
  then show "set (reqs ms ((b @ [n]) ! j)) \<subseteq> set (take j (b @ [n]))"
  proof cases
    case 1
    with assms(1) show ?thesis by (simp add: ordered_def nth_append)
  next
    case 2
    with assms(2) show ?thesis by simp
  qed
qed

lemma push_inv:
  assumes inv: "stack_inv ms1 stk1"
    and nb: "n \<notin> black ms1"
    and b2: "black ms2 = insert n (black ms1)"
    and r2: "reqs ms2 = reqs ms1"
    and i2: "module_index ms2 = module_index ms1"
    and ni: "module_index ms1 n = Some i"
    and le: "i \<le> length (elements stk1)"
    and rb: "set (reqs ms1 n) \<subseteq> black ms1"
    and ri: "\<forall>r \<in> set (reqs ms1 n). module_index ms1 r = Some i"
  shows "stack_inv ms2 (push_sorted (Some i) n stk1)"
proof -
  let ?els = "elements stk1"
  let ?L = "length ?els"
  from inv have und: "undefined_element stk1 = None"
    and bk: "\<And>j. j < ?L \<Longrightarrow> \<exists>b. ?els ! j = Some b \<and> bucket_ok ms1 j b"
    and bl: "\<And>k. k \<in> black ms1 \<Longrightarrow> \<exists>j < ?L. module_index ms1 k = Some j"
    by (auto simp: stack_inv_def)
  have other: "bucket_ok ms2 j b" if "bucket_ok ms1 j b" "j \<noteq> i" for j b
  proof -
    have "{k \<in> black ms2. module_index ms2 k = Some j} = {k \<in> black ms1. module_index ms1 k = Some j}"
      using that(2) ni by (auto simp: b2 i2)
    with that(1) show ?thesis by (simp add: bucket_ok_def ordered_def r2)
  qed
  show ?thesis
  proof (cases "i < ?L")
    case True
    from bk[OF True] obtain b where b: "?els ! i = Some b" "bucket_ok ms1 i b" by blast
    have push: "push_sorted (Some i) n stk1 = stk1\<lparr>elements := ?els[i := Some (b @ [n])]\<rparr>"
      using True b(1) by (simp add: push_sorted_def)
    from b(2) have sb: "set b = {k \<in> black ms1. module_index ms1 k = Some i}"
      and db: "distinct b" and ob: "ordered ms1 b" by (auto simp: bucket_ok_def)
    have nin: "n \<notin> set b" using nb sb by auto
    have rsub: "set (reqs ms1 n) \<subseteq> set b" using rb ri sb by auto
    have new: "bucket_ok ms2 i (b @ [n])"
      unfolding bucket_ok_def
    proof (intro conjI)
      show "b @ [n] \<noteq> []" by simp
      show "distinct (b @ [n])" using db nin by simp
      show "set (b @ [n]) = {k \<in> black ms2. module_index ms2 k = Some i}"
        using sb ni by (auto simp: b2 i2)
      have "ordered ms1 (b @ [n])" using ob rsub by (rule ordered_snoc)
      then show "ordered ms2 (b @ [n])" by (simp add: ordered_def r2)
    qed
    show ?thesis
      unfolding stack_inv_def push
    proof (intro conjI allI impI ballI)
      show "undefined_element (stk1\<lparr>elements := ?els[i := Some (b @ [n])]\<rparr>) = None"
        using und by simp
    next
      fix j assume "j < length (elements (stk1\<lparr>elements := ?els[i := Some (b @ [n])]\<rparr>))"
      then have j: "j < ?L" by simp
      show "\<exists>c. elements (stk1\<lparr>elements := ?els[i := Some (b @ [n])]\<rparr>) ! j = Some c
               \<and> bucket_ok ms2 j c"
      proof (cases "j = i")
        case True
        with j new show ?thesis by simp
      next
        case False
        from bk[OF j] obtain c where "?els ! j = Some c" "bucket_ok ms1 j c" by blast
        with False other show ?thesis by simp
      qed
    next
      fix k assume "k \<in> black ms2"
      then have "k = n \<or> k \<in> black ms1" by (simp add: b2)
      then show "\<exists>j < length (elements (stk1\<lparr>elements := ?els[i := Some (b @ [n])]\<rparr>)).
                   module_index ms2 k = Some j"
      proof
        assume "k = n"
        with True ni show ?thesis by (auto simp: i2)
      next
        assume "k \<in> black ms1"
        from bl[OF this] show ?thesis by (simp add: i2)
      qed
    qed
  next
    case False
    with le have iL: "i = ?L" by simp
    have push: "push_sorted (Some i) n stk1 = stk1\<lparr>elements := ?els @ [Some [n]]\<rparr>"
      using iL by (simp add: push_sorted_def)
    have none: "\<And>k. k \<in> black ms1 \<Longrightarrow> module_index ms1 k \<noteq> Some i"
      using bl iL by fastforce
    have emp: "reqs ms1 n = []"
    proof (cases "reqs ms1 n")
      case Nil
      then show ?thesis .
    next
      case (Cons r rs)
      then have r: "r \<in> set (reqs ms1 n)" by simp
      with rb ri have "r \<in> black ms1" "module_index ms1 r = Some i" by auto
      with none show ?thesis by blast
    qed
    have new: "bucket_ok ms2 i [n]"
      unfolding bucket_ok_def
    proof (intro conjI)
      show "[n] \<noteq> []" by simp
      show "distinct [n]" by simp
      show "set [n] = {k \<in> black ms2. module_index ms2 k = Some i}"
        using ni none by (auto simp: b2 i2)
      show "ordered ms2 [n]" using emp by (simp add: ordered_def r2)
    qed
    show ?thesis
      unfolding stack_inv_def push
    proof (intro conjI allI impI ballI)
      show "undefined_element (stk1\<lparr>elements := ?els @ [Some [n]]\<rparr>) = None"
        using und by simp
    next
      fix j assume "j < length (elements (stk1\<lparr>elements := ?els @ [Some [n]]\<rparr>))"
      then have j: "j < ?L \<or> j = ?L" by auto
      then show "\<exists>c. elements (stk1\<lparr>elements := ?els @ [Some [n]]\<rparr>) ! j = Some c
               \<and> bucket_ok ms2 j c"
      proof
        assume jl: "j < ?L"
        from bk[OF jl] obtain c where "?els ! j = Some c" "bucket_ok ms1 j c" by blast
        with jl iL other[of j c] show ?thesis by (simp add: nth_append)
      next
        assume "j = ?L"
        with new iL show ?thesis by simp
      qed
    next
      fix k assume "k \<in> black ms2"
      then have "k = n \<or> k \<in> black ms1" by (simp add: b2)
      then show "\<exists>j < length (elements (stk1\<lparr>elements := ?els @ [Some [n]]\<rparr>)).
                   module_index ms2 k = Some j"
      proof
        assume "k = n"
        with iL ni show ?thesis by (auto simp: i2)
      next
        assume "k \<in> black ms1"
        from bl[OF this] obtain j where "j < ?L" "module_index ms1 k = Some j" by blast
        then show ?thesis by (auto simp: i2 intro!: exI[of _ j])
      qed
    qed
  qed
qed

lemma push_length: "i \<le> length (elements s) \<Longrightarrow>
   length (elements s) \<le> length (elements (push_sorted (Some i) n s))"
  by (simp add: push_sorted_def)

lemma indexed_present: "indexed ms \<subseteq> present ms"
  by (auto simp: indexed_def present_def)

lemma topoSort_stack:
  "collectionTopoSort fuel n st = Some (Inr u, st') \<Longrightarrow>
     indexed_ok (fst st) (length (elements (snd st))) \<Longrightarrow> stack_inv (fst st) (snd st) \<Longrightarrow>
     n \<in> indexed (fst st) \<Longrightarrow> black (fst st) \<subseteq> indexed (fst st) \<Longrightarrow>
     stack_inv (fst st') (snd st')
     \<and> length (elements (snd st)) \<le> length (elements (snd st'))
     \<and> black (fst st') \<subseteq> indexed (fst st')"
  "topoSort_requires fuel items st = Some (Inr u, st') \<Longrightarrow>
     indexed_ok (fst st) (length (elements (snd st))) \<Longrightarrow> stack_inv (fst st) (snd st) \<Longrightarrow>
     set items \<subseteq> indexed (fst st) \<Longrightarrow> black (fst st) \<subseteq> indexed (fst st) \<Longrightarrow>
     stack_inv (fst st') (snd st')
     \<and> length (elements (snd st)) \<le> length (elements (snd st'))
     \<and> black (fst st') \<subseteq> indexed (fst st')"
proof (induction fuel n st and fuel items st arbitrary: u st' and u st'
    rule: collectionTopoSort_topoSort_requires.induct)
  case (1 n ms sortStack)
  then show ?case by simp
next
  case (2 fuel n ms sortStack)
  let ?L = "length (elements sortStack)"
  from 2(3) have iok: "indexed_ok ms ?L" by simp
  from 2(4) have inv: "stack_inv ms sortStack" by simp
  from 2(5) obtain m where Some: "lookup ms n = Some m" by (auto simp: indexed_def)
  then have nm: "name m = n" by (rule lookup_name)
  from iok 2(5) obtain i where i: "module_index ms n = Some i" "i \<le> ?L"
    and ri: "\<forall>r \<in> set (reqs ms n). r \<in> indexed ms \<and> module_index ms r = Some i"
    unfolding indexed_ok_def by fastforce
  have rq: "reqs ms n = requires m" using Some by (simp add: reqs_def)
  show ?case
  proof (cases "topologicalMarker m")
    case True
    with 2(2) Some show ?thesis by simp
  next
    case nmk: False
    show ?thesis
    proof (cases "sorting m")
      case True
      with 2(2) Some nmk inv 2(6) show ?thesis by auto
    next
      case ns: False
      let ?ms0 = "modify n (\<lambda>m. m\<lparr>topologicalMarker := True\<rparr>) ms"
      have f0: "sort_frame ms ?ms0"
        by (rule sort_frame_modify) (simp add: unmarked_def)
      from 2(2) Some nmk ns obtain u1 ms1 stk1 where
        loop: "topoSort_requires fuel (requires m) (?ms0, sortStack) = Some (Inr u1, ms1, stk1)"
        by (auto split: option.splits sum.splits)
      let ?ms2 = "modify n (\<lambda>m. m\<lparr>topologicalMarker := False, sorting := True\<rparr>) ms1"
      from 2(2) Some nmk ns loop
      have st': "st' = (?ms2, push_sorted (module_index ms1 n) (name m) stk1)" by simp
      have iok0: "indexed_ok (fst (?ms0, sortStack)) (length (elements (snd (?ms0, sortStack))))"
        using iok sort_frame_indexed_ok[OF f0] by simp
      have inv0: "stack_inv (fst (?ms0, sortStack)) (snd (?ms0, sortStack))"
        using inv stack_inv_frame[OF f0 black_mark] by simp
      have items0: "set (requires m) \<subseteq> indexed (fst (?ms0, sortStack))"
        using ri rq sort_frame_indexed[OF f0] by auto
      have bi0: "black (fst (?ms0, sortStack)) \<subseteq> indexed (fst (?ms0, sortStack))"
        using 2(6) sort_frame_indexed[OF f0] by (simp add: black_mark)
      from 2(1)[OF Some nmk ns loop iok0 inv0 items0 bi0]
      have inv1: "stack_inv ms1 stk1" and len1: "?L \<le> length (elements stk1)"
        and bi1: "black ms1 \<subseteq> indexed ms1" by simp_all
      from topoSort_frame(2)[OF loop]
      have f1: "sort_frame ?ms0 ms1" and ok1: "sort_ok ?ms0 ms1"
        and sub: "set (requires m) \<inter> present ?ms0 \<subseteq> black ms1" by auto
      have f2: "sort_frame ms1 ?ms2"
        by (rule sort_frame_modify) (simp add: unmarked_def)
      have f01: "sort_frame ms ms1" using f0 f1 by (rule sort_frame_trans)
      have "n \<in> present ms1"
        using Some sort_frame_present[OF f01] by (simp add: present_def)
      then obtain m1 where m1: "lookup ms1 n = Some m1" by (auto simp: present_def)
      have "n \<in> gray ?ms0" using Some by (simp add: gray_mark)
      moreover have "n \<notin> black ms" using Some ns by (simp add: black_def)
      ultimately have nb: "n \<notin> black ms1"
        using ok1 unfolding sort_ok_def black_mark by blast
      have b2: "black ?ms2 = insert n (black ms1)" using m1 by (rule black_finish)
      have r2: "reqs ?ms2 = reqs ms1" using f2 by (rule sort_frame_reqs)
      have i2: "module_index ?ms2 = module_index ms1" using f2 by (rule sort_frame_index)
      have i1: "module_index ms1 = module_index ms" using f01 by (rule sort_frame_index)
      have r1: "reqs ms1 = reqs ms" using f01 by (rule sort_frame_reqs)
      have ni: "module_index ms1 n = Some i" using i(1) i1 by simp
      have le: "i \<le> length (elements stk1)" using i(2) len1 by simp
      have "set (requires m) \<subseteq> present ?ms0"
        using ri rq indexed_present[of ms] sort_frame_present[OF f0] by auto
      with sub have rb: "set (reqs ms1 n) \<subseteq> black ms1" by (auto simp: r1 rq)
      have ri1: "\<forall>r \<in> set (reqs ms1 n). module_index ms1 r = Some i"
        using ri by (simp add: r1 i1)
      have "stack_inv ?ms2 (push_sorted (Some i) n stk1)"
        using inv1 nb b2 r2 i2 ni le rb ri1 by (rule push_inv)
      moreover have "length (elements stk1) \<le> length (elements (push_sorted (Some i) n stk1))"
        using le by (rule push_length)
      moreover have "black ?ms2 \<subseteq> indexed ?ms2"
        using bi1 2(5) sort_frame_indexed[OF f01] sort_frame_indexed[OF f2] by (auto simp: b2)
      ultimately show ?thesis
        using len1 by (simp add: st' ni nm)
    qed
  qed
next
  case (3 fuel st)
  then show ?case by simp
next
  case (4 fuel item items st)
  from 4(3) obtain r1 st1 where
    first: "collectionTopoSort fuel item st = Some (r1, st1)"
    by (auto split: option.splits)
  with 4(3) obtain u1 where r1: "r1 = Inr u1" by (cases r1) auto
  with 4(3) first have rest: "topoSort_requires fuel items st1 = Some (Inr u, st')" by simp
  from first r1 have first': "collectionTopoSort fuel item st = Some (Inr u1, st1)" by simp
  from 4(6) have "item \<in> indexed (fst st)" by simp
  from 4(1)[OF first' 4(4) 4(5) this 4(7)]
  have inv1: "stack_inv (fst st1) (snd st1)"
    and len1: "length (elements (snd st)) \<le> length (elements (snd st1))"
    and bi1: "black (fst st1) \<subseteq> indexed (fst st1)" by simp_all
  from topoSort_frame(1)[OF first] have f1: "sort_frame (fst st) (fst st1)" by simp
  have "indexed_ok (fst st1) (length (elements (snd st)))"
    using 4(4) sort_frame_indexed_ok[OF f1] by simp
  then have iok1: "indexed_ok (fst st1) (length (elements (snd st1)))"
    using len1 by (rule indexed_ok_mono)
  have items1: "set items \<subseteq> indexed (fst st1)"
    using 4(6) sort_frame_indexed[OF f1] by simp
  from 4(2)[OF first refl r1 rest iok1 inv1 items1 bi1] len1 show ?case by simp
qed

section \<open>The adjacency index\<close>

lemma index_frame_refl: "index_frame ms ms"
  by (simp add: index_frame_def)

lemma index_frame_trans: "index_frame a b \<Longrightarrow> index_frame b c \<Longrightarrow> index_frame a c"
  by (simp add: index_frame_def)

lemma unindexed_fields:
  assumes "unindexed a = unindexed b"
  shows "name a = name b" "requires a = requires b" "dependants a = dependants b"
    "topologicalMarker a = topologicalMarker b" "sorting a = sorting b"
proof -
  from assms have "name (unindexed a) = name (unindexed b)"
    "requires (unindexed a) = requires (unindexed b)"
    "dependants (unindexed a) = dependants (unindexed b)"
    "topologicalMarker (unindexed a) = topologicalMarker (unindexed b)"
    "sorting (unindexed a) = sorting (unindexed b)" by simp_all
  then show "name a = name b" "requires a = requires b" "dependants a = dependants b"
    "topologicalMarker a = topologicalMarker b" "sorting a = sorting b"
    by (simp_all add: unindexed_def)
qed

lemma index_frame_modify:
  assumes "\<And>m. unindexed (f m) = unindexed m"
  shows "index_frame ms (modify n f ms)"
proof -
  have "\<And>m. name (f m) = name m" using assms by (rule unindexed_fields)
  then show ?thesis
    by (simp add: index_frame_def lookup_modify option.map_comp o_def assms)
qed

lemma index_frame_lookup:
  assumes "index_frame ms ms'"
  shows "(lookup ms k = None \<longrightarrow> lookup ms' k = None)
       \<and> (\<forall>a. lookup ms k = Some a \<longrightarrow> (\<exists>b. lookup ms' k = Some b \<and> unindexed b = unindexed a))"
proof -
  from assms have e: "map_option unindexed (lookup ms' k) = map_option unindexed (lookup ms k)"
    by (simp add: index_frame_def)
  show ?thesis
  proof (cases "lookup ms k")
    case None
    with e show ?thesis by simp
  next
    case (Some a)
    with e show ?thesis by auto
  qed
qed

lemma index_frame_views:
  assumes f: "index_frame ms ms'"
  shows "present ms' = present ms" "reqs ms' = reqs ms" "deps ms' = deps ms"
    "gray ms' = gray ms" "black ms' = black ms"
proof -
  have *: "\<And>k. (lookup ms k = None \<and> lookup ms' k = None)
        \<or> (\<exists>a b. lookup ms k = Some a \<and> lookup ms' k = Some b \<and> name a = name b
              \<and> requires a = requires b \<and> dependants a = dependants b
              \<and> topologicalMarker a = topologicalMarker b \<and> sorting a = sorting b)"
  proof -
    fix k
    show "(lookup ms k = None \<and> lookup ms' k = None)
        \<or> (\<exists>a b. lookup ms k = Some a \<and> lookup ms' k = Some b \<and> name a = name b
              \<and> requires a = requires b \<and> dependants a = dependants b
              \<and> topologicalMarker a = topologicalMarker b \<and> sorting a = sorting b)"
    proof (cases "lookup ms k")
      case None
      with index_frame_lookup[OF f, of k] show ?thesis by simp
    next
      case (Some a)
      with index_frame_lookup[OF f, of k] obtain b where
        b: "lookup ms' k = Some b" "unindexed b = unindexed a" by auto
      from unindexed_fields[OF b(2)] Some b(1) show ?thesis by simp
    qed
  qed
  show "present ms' = present ms"
  proof (rule set_eqI)
    fix k from *[of k] show "k \<in> present ms' \<longleftrightarrow> k \<in> present ms" by (auto simp: present_def)
  qed
  show "reqs ms' = reqs ms"
  proof (rule ext)
    fix k from *[of k] show "reqs ms' k = reqs ms k" by (auto simp: reqs_def)
  qed
  show "deps ms' = deps ms"
  proof (rule ext)
    fix k from *[of k] show "deps ms' k = deps ms k" by (auto simp: deps_def)
  qed
  show "gray ms' = gray ms"
  proof (rule set_eqI)
    fix k from *[of k] show "k \<in> gray ms' \<longleftrightarrow> k \<in> gray ms" by (auto simp: gray_def)
  qed
  show "black ms' = black ms"
  proof (rule set_eqI)
    fix k from *[of k] show "k \<in> black ms' \<longleftrightarrow> k \<in> black ms" by (auto simp: black_def)
  qed
qed

lemma index_frame_nbrs: "index_frame ms ms' \<Longrightarrow> nbrs ms' = nbrs ms"
  by (rule ext) (simp add: nbrs_def index_frame_views(2,3))

lemma index_frame_adj: "index_frame ms ms' \<Longrightarrow> adj_rel ms' = adj_rel ms"
  by (simp add: adj_rel_def index_frame_nbrs)

lemma index_step_refl: "R \<subseteq> indexed ms \<Longrightarrow> index_step ms ms i R"
  unfolding index_step_def using index_frame_refl[of ms] by simp

lemma index_step_trans:
  assumes 1: "index_step ms ms1 i R1" and 2: "index_step ms1 ms2 i R2"
  shows "index_step ms ms2 i (R1 \<union> R2)"
proof -
  from 1 have f1: "index_frame ms ms1" and m1: "indexed ms \<subseteq> indexed ms1"
    and c1: "\<And>k. k \<in> indexed ms \<Longrightarrow> module_index ms1 k = module_index ms k"
    and d1: "\<And>k. k \<in> indexed ms1 \<Longrightarrow> k \<notin> indexed ms \<Longrightarrow>
               module_index ms1 k = Some i \<and> (\<exists>root \<in> R1. (root, k) \<in> (adj_rel ms)\<^sup>*)
               \<and> nbrs ms k \<subseteq> indexed ms1"
    and e1: "R1 \<subseteq> indexed ms1"
    by (auto simp: index_step_def)
  from 2 have f2: "index_frame ms1 ms2" and m2: "indexed ms1 \<subseteq> indexed ms2"
    and c2: "\<And>k. k \<in> indexed ms1 \<Longrightarrow> module_index ms2 k = module_index ms1 k"
    and d2: "\<And>k. k \<in> indexed ms2 \<Longrightarrow> k \<notin> indexed ms1 \<Longrightarrow>
               module_index ms2 k = Some i \<and> (\<exists>root \<in> R2. (root, k) \<in> (adj_rel ms1)\<^sup>*)
               \<and> nbrs ms1 k \<subseteq> indexed ms2"
    and e2: "R2 \<subseteq> indexed ms2"
    by (auto simp: index_step_def)
  have a1: "adj_rel ms1 = adj_rel ms" using f1 by (rule index_frame_adj)
  have n1: "nbrs ms1 = nbrs ms" using f1 by (rule index_frame_nbrs)
  have c: "\<forall>k \<in> indexed ms. module_index ms2 k = module_index ms k"
    using c1 c2 m1 by auto
  have d: "\<forall>k \<in> indexed ms2 - indexed ms.
          module_index ms2 k = Some i \<and> (\<exists>root \<in> R1 \<union> R2. (root, k) \<in> (adj_rel ms)\<^sup>*)
          \<and> nbrs ms k \<subseteq> indexed ms2"
  proof
    fix k assume k: "k \<in> indexed ms2 - indexed ms"
    show "module_index ms2 k = Some i \<and> (\<exists>root \<in> R1 \<union> R2. (root, k) \<in> (adj_rel ms)\<^sup>*)
          \<and> nbrs ms k \<subseteq> indexed ms2"
    proof (cases "k \<in> indexed ms1")
      case True
      with k have "k \<notin> indexed ms" by simp
      from d1[OF True this] c2[OF True] m2 show ?thesis by auto
    next
      case False
      with k have "k \<in> indexed ms2" by simp
      from d2[OF this False] show ?thesis by (auto simp: a1 n1)
    qed
  qed
  have "index_frame ms ms2" using f1 f2 by (rule index_frame_trans)
  moreover have "indexed ms \<subseteq> indexed ms2" using m1 m2 by blast
  moreover have "R1 \<union> R2 \<subseteq> indexed ms2" using e1 e2 m2 by blast
  ultimately show ?thesis
    unfolding index_step_def using c d by blast
qed

lemma indexed_mark:
  "lookup ms n = Some m \<Longrightarrow>
   indexed (modify n (\<lambda>m. m\<lparr>index := Some i, indexing := True\<rparr>) ms) = insert n (indexed ms)"
  by (auto simp: indexed_def lookup_modify)

lemma module_index_mark:
  "lookup ms n = Some m \<Longrightarrow>
   module_index (modify n (\<lambda>m. m\<lparr>index := Some i, indexing := True\<rparr>) ms) k
     = (if k = n then Some i else module_index ms k)"
  by (simp add: module_index_def lookup_modify)

lemma index_frame_mark:
  "index_frame ms (modify n (\<lambda>m. m\<lparr>index := Some i, indexing := True\<rparr>) ms)"
  by (rule index_frame_modify) (simp add: unindexed_def)

lemma index_step_mark:
  assumes l: "lookup ms n = Some m" and ni: "n \<notin> indexed ms"
    and st: "index_step (modify n (\<lambda>m. m\<lparr>index := Some i, indexing := True\<rparr>) ms) ms' i
               (nbrs ms n)"
  shows "index_step ms ms' i {n}"
proof -
  let ?ms0 = "modify n (\<lambda>m. m\<lparr>index := Some i, indexing := True\<rparr>) ms"
  have f0: "index_frame ms ?ms0" by (rule index_frame_mark)
  have x0: "indexed ?ms0 = insert n (indexed ms)" using l by (rule indexed_mark)
  have i0: "\<And>k. module_index ?ms0 k = (if k = n then Some i else module_index ms k)"
    using l by (rule module_index_mark)
  have a0: "adj_rel ?ms0 = adj_rel ms" using f0 by (rule index_frame_adj)
  have n0: "nbrs ?ms0 = nbrs ms" using f0 by (rule index_frame_nbrs)
  from st have f1: "index_frame ?ms0 ms'" and m1: "indexed ?ms0 \<subseteq> indexed ms'"
    and c1: "\<And>k. k \<in> indexed ?ms0 \<Longrightarrow> module_index ms' k = module_index ?ms0 k"
    and d1: "\<And>k. k \<in> indexed ms' \<Longrightarrow> k \<notin> indexed ?ms0 \<Longrightarrow>
               module_index ms' k = Some i \<and> (\<exists>root \<in> nbrs ms n. (root, k) \<in> (adj_rel ?ms0)\<^sup>*)
               \<and> nbrs ?ms0 k \<subseteq> indexed ms'"
    and e1: "nbrs ms n \<subseteq> indexed ms'"
    by (auto simp: index_step_def)
  have c: "\<forall>k \<in> indexed ms. module_index ms' k = module_index ms k"
  proof
    fix k assume k: "k \<in> indexed ms"
    with ni have "k \<noteq> n" by auto
    moreover from k have "k \<in> indexed ?ms0" by (simp add: x0)
    ultimately show "module_index ms' k = module_index ms k" using c1[of k] i0[of k] by simp
  qed
  have d: "\<forall>k \<in> indexed ms' - indexed ms.
          module_index ms' k = Some i \<and> (\<exists>root \<in> {n}. (root, k) \<in> (adj_rel ms)\<^sup>*)
          \<and> nbrs ms k \<subseteq> indexed ms'"
  proof
    fix k assume k: "k \<in> indexed ms' - indexed ms"
    show "module_index ms' k = Some i \<and> (\<exists>root \<in> {n}. (root, k) \<in> (adj_rel ms)\<^sup>*)
          \<and> nbrs ms k \<subseteq> indexed ms'"
    proof (cases "k = n")
      case True
      have "n \<in> indexed ?ms0" by (simp add: x0)
      from c1[OF this] have "module_index ms' n = Some i" by (simp add: i0)
      with True e1 show ?thesis by simp
    next
      case False
      with k have k1: "k \<in> indexed ms'" and k0: "k \<notin> indexed ?ms0" by (simp_all add: x0)
      from d1[OF k1 k0] obtain root where idx: "module_index ms' k = Some i"
        and root: "root \<in> nbrs ms n" "(root, k) \<in> (adj_rel ms)\<^sup>*"
        and nb: "nbrs ms k \<subseteq> indexed ms'"
        by (auto simp: a0 n0)
      from root(1) have "(n, root) \<in> adj_rel ms" by (simp add: adj_rel_def)
      from this root(2) have "(n, k) \<in> (adj_rel ms)\<^sup>*"
        by (rule converse_rtrancl_into_rtrancl)
      with idx nb show ?thesis by simp
    qed
  qed
  have "index_frame ms ms'" using f0 f1 by (rule index_frame_trans)
  moreover have "indexed ms \<subseteq> indexed ms'" using m1 x0 by blast
  moreover have "{n} \<subseteq> indexed ms'" using m1 x0 by blast
  ultimately show ?thesis
    unfolding index_step_def using c d by blast
qed

lemma adjacencyIndex_step:
  "collectionAdjacencyIndex fuel n i ms = Some (Inr u, ms') \<Longrightarrow> index_step ms ms' i {n}"
  "adjacencyIndex_each fuel items i ms = Some (Inr u, ms') \<Longrightarrow>
     index_step ms ms' i (set items)"
proof (induction fuel n i ms and fuel items i ms arbitrary: u ms' and u ms'
    rule: collectionAdjacencyIndex_adjacencyIndex_each.induct)
  case (1 n i ms)
  then show ?case by simp
next
  case (2 fuel n i ms)
  from 2(3) obtain m where Some: "lookup ms n = Some m"
    by (cases "lookup ms n") auto
  show ?case
  proof (cases "indexing m")
    case True
    with 2(3) Some have "ms' = ms" by simp
    moreover have "{n} \<subseteq> indexed ms" using Some True by (simp add: indexed_def)
    ultimately show ?thesis by (simp add: index_step_refl)
  next
    case False
    let ?ms0 = "modify n (\<lambda>m. m\<lparr>index := Some i, indexing := True\<rparr>) ms"
    from 2(3) Some False obtain u1 ms1 where
      loop1: "adjacencyIndex_each fuel (requires m) i ?ms0 = Some (Inr u1, ms1)"
      by (auto split: option.splits sum.splits)
    with 2(3) Some False have
      loop2: "adjacencyIndex_each fuel (dependants m) i ms1 = Some (Inr u, ms')"
      by simp
    from 2(1)[OF Some False loop1]
    have s1: "index_step ?ms0 ms1 i (set (requires m))" .
    from 2(2)[OF Some False loop1 refl refl loop2]
    have s2: "index_step ms1 ms' i (set (dependants m))" .
    have "nbrs ms n = set (requires m) \<union> set (dependants m)"
      using Some by (simp add: nbrs_def reqs_def deps_def)
    with index_step_trans[OF s1 s2]
    have "index_step ?ms0 ms' i (nbrs ms n)" by simp
    moreover have "n \<notin> indexed ms" using Some False by (simp add: indexed_def)
    ultimately show ?thesis using Some by (intro index_step_mark)
  qed
next
  case (3 fuel i ms)
  then show ?case by (simp add: index_step_refl)
next
  case (4 fuel item items i ms)
  from 4(3) obtain u1 ms1 where
    first: "collectionAdjacencyIndex fuel item i ms = Some (Inr u1, ms1)"
    by (auto split: option.splits sum.splits)
  with 4(3) have rest: "adjacencyIndex_each fuel items i ms1 = Some (Inr u, ms')" by simp
  from 4(1)[OF first] have s1: "index_step ms ms1 i {item}" .
  from 4(2)[OF first refl refl rest] have s2: "index_step ms1 ms' i (set items)" .
  from index_step_trans[OF s1 s2] show ?case by simp
qed

lemma index_frame_closed_adj: "index_frame ms ms' \<Longrightarrow> closed_adj ms' = closed_adj ms"
  unfolding closed_adj_def
  by (frule index_frame_nbrs, drule index_frame_views(1)) simp

lemma index_step_frame: "index_step ms ms' i R \<Longrightarrow> index_frame ms ms'"
  by (simp add: index_step_def)

lemma adjacencyIndex_no_error:
  "collectionAdjacencyIndex fuel n i ms = Some (Inl e, ms') \<Longrightarrow> closed_adj ms \<Longrightarrow>
     n \<in> present ms \<Longrightarrow> False"
  "adjacencyIndex_each fuel items i ms = Some (Inl e, ms') \<Longrightarrow> closed_adj ms \<Longrightarrow>
     set items \<subseteq> present ms \<Longrightarrow> False"
proof (induction fuel n i ms and fuel items i ms arbitrary: e ms' and e ms'
    rule: collectionAdjacencyIndex_adjacencyIndex_each.induct)
  case (1 n i ms)
  then show ?case by simp
next
  case (2 fuel n i ms)
  from 2(5) obtain m where Some: "lookup ms n = Some m" by (auto simp: present_def)
  show ?case
  proof (cases "indexing m")
    case True
    with 2(3) Some show ?thesis by simp
  next
    case False
    let ?ms0 = "modify n (\<lambda>m. m\<lparr>index := Some i, indexing := True\<rparr>) ms"
    have f0: "index_frame ms ?ms0" by (rule index_frame_mark)
    have c0: "closed_adj ?ms0" using 2(4) index_frame_closed_adj[OF f0] by simp
    have nb: "nbrs ms n = set (requires m) \<union> set (dependants m)"
      using Some by (simp add: nbrs_def reqs_def deps_def)
    have sub: "nbrs ms n \<subseteq> present ms" using 2(4) by (simp add: closed_adj_def)
    have p0: "present ?ms0 = present ms" using f0 by (rule index_frame_views)
    from 2(3) Some False obtain r1 ms1 where
      loop1: "adjacencyIndex_each fuel (requires m) i ?ms0 = Some (r1, ms1)"
      by (auto split: option.splits)
    show ?thesis
    proof (cases r1)
      case (Inl e1)
      have "set (requires m) \<subseteq> present ?ms0" using nb sub p0 by auto
      from 2(1)[OF Some False loop1[unfolded Inl] c0 this] show ?thesis .
    next
      case (Inr u1)
      with 2(3) Some False loop1 have
        loop2: "adjacencyIndex_each fuel (dependants m) i ms1 = Some (Inl e, ms')" by simp
      from adjacencyIndex_step(2)[OF loop1[unfolded Inr]]
      have f1: "index_frame ?ms0 ms1" by (rule index_step_frame)
      have c1: "closed_adj ms1" using c0 index_frame_closed_adj[OF f1] by simp
      have "present ms1 = present ?ms0" using f1 by (rule index_frame_views)
      with nb sub p0 have s1: "set (dependants m) \<subseteq> present ms1" by auto
      from 2(2)[OF Some False loop1 refl Inr loop2 c1 s1] show ?thesis .
    qed
  qed
next
  case (3 fuel i ms)
  then show ?case by simp
next
  case (4 fuel item items i ms)
  from 4(3) obtain r1 ms1 where
    first: "collectionAdjacencyIndex fuel item i ms = Some (r1, ms1)"
    by (auto split: option.splits)
  show ?case
  proof (cases r1)
    case (Inl e1)
    from 4(5) have "item \<in> present ms" by simp
    from 4(1)[OF first[unfolded Inl] 4(4) this] show ?thesis .
  next
    case (Inr u1)
    with 4(3) first have rest: "adjacencyIndex_each fuel items i ms1 = Some (Inl e, ms')"
      by simp
    from adjacencyIndex_step(1)[OF first[unfolded Inr]]
    have f1: "index_frame ms ms1" by (rule index_step_frame)
    have c1: "closed_adj ms1" using 4(4) index_frame_closed_adj[OF f1] by simp
    have s1: "set items \<subseteq> present ms1" using 4(5) index_frame_views(1)[OF f1] by simp
    from 4(2)[OF first refl Inr rest c1 s1] show ?thesis .
  qed
qed

lemma card_unindexed_step:
  assumes "index_step ms ms' i R"
  shows "card (present ms' - indexed ms') \<le> card (present ms - indexed ms)"
proof -
  from assms have "present ms' = present ms" "indexed ms \<subseteq> indexed ms'"
    by (auto simp: index_step_def dest: index_frame_views(1))
  then have "present ms' - indexed ms' \<subseteq> present ms - indexed ms" by auto
  then show ?thesis using finite_present[of ms] by (intro card_mono) auto
qed

lemma adjacencyIndex_fuel:
  "card (present ms - indexed ms) < fuel \<Longrightarrow> collectionAdjacencyIndex fuel n i ms \<noteq> None"
  "card (present ms - indexed ms) < fuel \<Longrightarrow> adjacencyIndex_each fuel items i ms \<noteq> None"
proof (induction fuel n i ms and fuel items i ms
    rule: collectionAdjacencyIndex_adjacencyIndex_each.induct)
  case (1 n i ms)
  then show ?case by simp
next
  case (2 fuel n i ms)
  show ?case
  proof (cases "lookup ms n")
    case None
    then show ?thesis by simp
  next
    case (Some m)
    show ?thesis
    proof (cases "indexing m")
      case True
      with Some show ?thesis by simp
    next
      case False
      let ?ms0 = "modify n (\<lambda>m. m\<lparr>index := Some i, indexing := True\<rparr>) ms"
      have p0: "present ?ms0 = present ms"
        using index_frame_mark by (rule index_frame_views)
      have x0: "indexed ?ms0 = insert n (indexed ms)" using Some by (rule indexed_mark)
      have nin: "n \<in> present ms - indexed ms"
        using Some False by (auto simp: present_def indexed_def)
      have "present ?ms0 - indexed ?ms0 = (present ms - indexed ms) - {n}"
        unfolding p0 x0 by auto
      then have "card (present ?ms0 - indexed ?ms0) = card (present ms - indexed ms) - 1"
        using nin finite_present[of ms] by simp
      moreover have "0 < card (present ms - indexed ms)"
        using nin finite_present[of ms] by (metis card_gt_0_iff empty_iff finite_Diff)
      ultimately have c0: "card (present ?ms0 - indexed ?ms0) < fuel" using 2(3) by simp
      from 2(1)[OF Some False c0] obtain r1 ms1 where
        loop1: "adjacencyIndex_each fuel (requires m) i ?ms0 = Some (r1, ms1)" by auto
      show ?thesis
      proof (cases r1)
        case (Inl e)
        with Some False loop1 show ?thesis by simp
      next
        case (Inr u1)
        from card_unindexed_step[OF adjacencyIndex_step(2)[OF loop1[unfolded Inr]]] c0
        have "card (present ms1 - indexed ms1) < fuel" by simp
        from 2(2)[OF Some False loop1 refl Inr this] Some False loop1 Inr
        show ?thesis by simp
      qed
    qed
  qed
next
  case (3 fuel i ms)
  then show ?case by simp
next
  case (4 fuel item items i ms)
  from 4(1)[OF 4(3)] obtain r1 ms1 where
    first: "collectionAdjacencyIndex fuel item i ms = Some (r1, ms1)" by auto
  show ?case
  proof (cases r1)
    case (Inl e)
    with first show ?thesis by simp
  next
    case (Inr u1)
    from card_unindexed_step[OF adjacencyIndex_step(1)[OF first[unfolded Inr]]] 4(3)
    have "card (present ms1 - indexed ms1) < fuel" by simp
    from 4(2)[OF first refl Inr this] first Inr show ?thesis by simp
  qed
qed

section \<open>The invariant of the serialisation loop\<close>

lemma closed_reach:
  assumes "\<forall>k \<in> S. nbrs ms k \<subseteq> S" "(a, b) \<in> (adj_rel ms)\<^sup>*" "a \<in> S"
  shows "b \<in> S"
  using assms(2,3)
proof (induction rule: rtrancl_induct)
  case base
  then show ?case .
next
  case (step y z)
  then have "y \<in> S" by simp
  with assms(1) step(2) show ?case by (auto simp: adj_rel_def)
qed

lemma sym_rtrancl_adj: "sym (adj_rel ms) \<Longrightarrow> (a, b) \<in> (adj_rel ms)\<^sup>* \<Longrightarrow> (b, a) \<in> (adj_rel ms)\<^sup>*"
  by (metis sym_rtrancl symD)

lemma graph_inv_index_step:
  assumes inv: "graph_inv ms ap" and st: "index_step ms ms1 ap {k}"
  shows "graph_inv ms1 (Suc ap)"
proof -
  from inv have g: "gray ms = {}" and bi: "black ms \<subseteq> indexed ms" and ca: "closed_adj ms"
    and sy: "sym (adj_rel ms)" and cl: "\<forall>k \<in> indexed ms. nbrs ms k \<subseteq> indexed ms"
    and bd: "\<And>k. k \<in> indexed ms \<Longrightarrow> \<exists>j < ap. module_index ms k = Some j"
    and eq: "\<And>k k'. k \<in> indexed ms \<Longrightarrow> k' \<in> indexed ms \<Longrightarrow>
               module_index ms k = module_index ms k' \<longleftrightarrow> (k, k') \<in> (adj_rel ms)\<^sup>*"
    by (auto simp: graph_inv_def)
  from st have f: "index_frame ms ms1" and mono: "indexed ms \<subseteq> indexed ms1"
    and c: "\<And>x. x \<in> indexed ms \<Longrightarrow> module_index ms1 x = module_index ms x"
    and d: "\<And>x. x \<in> indexed ms1 \<Longrightarrow> x \<notin> indexed ms \<Longrightarrow>
               module_index ms1 x = Some ap \<and> (k, x) \<in> (adj_rel ms)\<^sup>*
               \<and> nbrs ms x \<subseteq> indexed ms1"
    by (auto simp: index_step_def)
  have a1: "adj_rel ms1 = adj_rel ms" using f by (rule index_frame_adj)
  have n1: "nbrs ms1 = nbrs ms" using f by (rule index_frame_nbrs)
  note v = index_frame_views[OF f]
  have old_reach: "\<And>x y. x \<in> indexed ms \<Longrightarrow> (x, y) \<in> (adj_rel ms)\<^sup>* \<Longrightarrow> y \<in> indexed ms"
    using closed_reach[OF cl] by blast
  have eq1: "module_index ms1 x = module_index ms1 y \<longleftrightarrow> (x, y) \<in> (adj_rel ms)\<^sup>*"
    if x: "x \<in> indexed ms1" and y: "y \<in> indexed ms1" for x y
  proof (cases "x \<in> indexed ms")
    case xo: True
    show ?thesis
    proof (cases "y \<in> indexed ms")
      case True
      with xo eq[of x y] c[of x] c[of y] show ?thesis by simp
    next
      case False
      from bd[OF xo] c[OF xo] obtain j where "j < ap" "module_index ms1 x = Some j" by auto
      moreover from d[OF y False] have "module_index ms1 y = Some ap" by simp
      moreover have "(x, y) \<notin> (adj_rel ms)\<^sup>*" using old_reach[OF xo] False by blast
      ultimately show ?thesis by simp
    qed
  next
    case xn: False
    show ?thesis
    proof (cases "y \<in> indexed ms")
      case True
      from bd[OF True] c[OF True] obtain j where "j < ap" "module_index ms1 y = Some j" by auto
      moreover from d[OF x xn] have "module_index ms1 x = Some ap" by simp
      moreover have "(x, y) \<notin> (adj_rel ms)\<^sup>*"
        using old_reach[OF True] xn sym_rtrancl_adj[OF sy] by blast
      ultimately show ?thesis by simp
    next
      case False
      from d[OF x xn] d[OF y False]
      have "module_index ms1 x = Some ap" "module_index ms1 y = Some ap"
        "(k, x) \<in> (adj_rel ms)\<^sup>*" "(k, y) \<in> (adj_rel ms)\<^sup>*" by simp_all
      moreover from this(3) have "(x, k) \<in> (adj_rel ms)\<^sup>*" using sym_rtrancl_adj[OF sy] by blast
      ultimately show ?thesis by (metis rtrancl_trans)
    qed
  qed
  show ?thesis
    unfolding graph_inv_def
  proof (intro conjI)
    show "gray ms1 = {}" using g v(4) by simp
    show "black ms1 \<subseteq> indexed ms1" using bi mono v(5) by auto
    show "closed_adj ms1" using ca index_frame_closed_adj[OF f] by simp
    show "sym (adj_rel ms1)" using sy a1 by simp
    show "\<forall>x \<in> indexed ms1. nbrs ms1 x \<subseteq> indexed ms1"
    proof
      fix x assume x: "x \<in> indexed ms1"
      show "nbrs ms1 x \<subseteq> indexed ms1"
      proof (cases "x \<in> indexed ms")
        case True
        with cl mono show ?thesis by (auto simp: n1)
      next
        case False
        from d[OF x False] show ?thesis by (simp add: n1)
      qed
    qed
    show "\<forall>x \<in> indexed ms1. \<exists>j < Suc ap. module_index ms1 x = Some j"
    proof
      fix x assume x: "x \<in> indexed ms1"
      show "\<exists>j < Suc ap. module_index ms1 x = Some j"
      proof (cases "x \<in> indexed ms")
        case True
        from bd[OF True] c[OF True] show ?thesis by (auto intro: less_SucI)
      next
        case False
        from d[OF x False] show ?thesis by auto
      qed
    qed
    show "\<forall>x \<in> indexed ms1. \<forall>y \<in> indexed ms1.
            module_index ms1 x = module_index ms1 y \<longleftrightarrow> (x, y) \<in> (adj_rel ms1)\<^sup>*"
      using eq1 by (simp add: a1)
  qed
qed

lemma stack_inv_index_step:
  assumes inv: "stack_inv ms stk" and bi: "black ms \<subseteq> indexed ms"
    and st: "index_step ms ms1 i R"
  shows "stack_inv ms1 stk"
proof -
  from st have f: "index_frame ms ms1"
    and c: "\<And>x. x \<in> indexed ms \<Longrightarrow> module_index ms1 x = module_index ms x"
    by (auto simp: index_step_def)
  note v = index_frame_views[OF f]
  have b: "\<And>k. k \<in> black ms \<Longrightarrow> module_index ms1 k = module_index ms k"
    using bi c by auto
  have s: "\<And>j. {k \<in> black ms. module_index ms1 k = Some j}
              = {k \<in> black ms. module_index ms k = Some j}"
    using b by auto
  have t: "(\<forall>k \<in> black ms. \<exists>i < length (elements stk). module_index ms1 k = Some i)
       \<longleftrightarrow> (\<forall>k \<in> black ms. \<exists>i < length (elements stk). module_index ms k = Some i)"
    using b by simp
  from inv show ?thesis
    unfolding stack_inv_def bucket_ok_def ordered_def v(2) v(5) s t .
qed

lemma same_graph_refl: "same_graph ms ms"
  by (simp add: same_graph_def)

lemma same_graph_trans: "same_graph a b \<Longrightarrow> same_graph b c \<Longrightarrow> same_graph a c"
  by (simp add: same_graph_def)

lemma same_graph_rel:
  assumes "same_graph ms ms'"
  shows "req_rel ms' = req_rel ms" "adj_rel ms' = adj_rel ms" "nbrs ms' = nbrs ms"
  using assms by (simp_all add: same_graph_def req_rel_def adj_rel_def nbrs_def fun_eq_iff)

lemma unmarked_dependants: "unmarked a = unmarked b \<Longrightarrow> dependants a = dependants b"
proof -
  assume "unmarked a = unmarked b"
  then have "dependants (unmarked a) = dependants (unmarked b)" by (rule arg_cong)
  then show ?thesis by (simp add: unmarked_def)
qed

lemma sort_frame_deps: "sort_frame ms ms' \<Longrightarrow> deps ms' = deps ms"
proof (rule ext)
  fix k assume f: "sort_frame ms ms'"
  show "deps ms' k = deps ms k"
  proof (cases "lookup ms k")
    case None
    with sort_frame_lookup[OF f, of k] show ?thesis by (simp add: deps_def)
  next
    case (Some a)
    with sort_frame_lookup[OF f, of k] obtain b where
      b: "lookup ms' k = Some b" "unmarked b = unmarked a" by auto
    from unmarked_dependants[OF b(2)] Some b(1) show ?thesis by (simp add: deps_def)
  qed
qed

lemma sort_frame_same_graph: "sort_frame ms ms' \<Longrightarrow> same_graph ms ms'"
  unfolding same_graph_def
  using sort_frame_present sort_frame_reqs sort_frame_deps by blast

lemma index_frame_same_graph: "index_frame ms ms' \<Longrightarrow> same_graph ms ms'"
  unfolding same_graph_def using index_frame_views(1-3) by blast

lemma closed_adj_same: "same_graph ms ms' \<Longrightarrow> closed_adj ms' = closed_adj ms"
  unfolding closed_adj_def by (frule same_graph_rel(3)) (simp add: same_graph_def)

lemma graph_inv_sort:
  assumes inv: "graph_inv ms ap" and f: "sort_frame ms ms'" and ok: "sort_ok ms ms'"
    and bi: "black ms' \<subseteq> indexed ms'"
  shows "graph_inv ms' ap"
proof -
  note sg = sort_frame_same_graph[OF f]
  note r = same_graph_rel[OF sg]
  have x: "indexed ms' = indexed ms" using f by (rule sort_frame_indexed)
  have i: "module_index ms' = module_index ms" using f by (rule sort_frame_index)
  have g: "gray ms' = gray ms" using ok by (simp add: sort_ok_def)
  from inv bi show ?thesis
    unfolding graph_inv_def r(2) r(3) x i g closed_adj_same[OF sg] by simp
qed

lemma graph_inv_indexed_ok:
  assumes inv: "graph_inv ms ap" and le: "ap \<le> Suc L"
  shows "indexed_ok ms L"
  unfolding indexed_ok_def
proof
  fix k assume k: "k \<in> indexed ms"
  from inv k obtain j where j: "j < ap" "module_index ms k = Some j"
    unfolding graph_inv_def by blast
  have "\<forall>r \<in> set (reqs ms k). r \<in> indexed ms \<and> module_index ms r = Some j"
  proof
    fix r assume r: "r \<in> set (reqs ms k)"
    then have nb: "r \<in> nbrs ms k" by (simp add: nbrs_def)
    with inv k have ri: "r \<in> indexed ms" unfolding graph_inv_def by blast
    from nb have "(k, r) \<in> (adj_rel ms)\<^sup>*" by (auto simp: adj_rel_def)
    with inv k ri have "module_index ms k = module_index ms r"
      unfolding graph_inv_def by blast
    with ri j show "r \<in> indexed ms \<and> module_index ms r = Some j" by simp
  qed
  with j le show "\<exists>i. module_index ms k = Some i \<and> i \<le> L
        \<and> (\<forall>r \<in> set (reqs ms k). r \<in> indexed ms \<and> module_index ms r = Some i)"
    by (intro exI[of _ j]) simp
qed

lemma stack_length_le:
  assumes inv: "stack_inv ms stk" and bi: "black ms \<subseteq> indexed ms"
    and bd: "\<forall>k \<in> indexed ms. \<exists>j < ap. module_index ms k = Some j"
  shows "length (elements stk) \<le> ap"
proof (cases "elements stk = []")
  case True
  then show ?thesis by simp
next
  case False
  let ?i = "length (elements stk) - 1"
  from False have il: "?i < length (elements stk)" by simp
  with inv obtain b where "bucket_ok ms ?i b" unfolding stack_inv_def by blast
  then obtain x where "x \<in> set b" "set b = {k \<in> black ms. module_index ms k = Some ?i}"
    unfolding bucket_ok_def by (cases b) auto
  then have x: "x \<in> black ms" "module_index ms x = Some ?i" by auto
  with bi bd obtain j where "j < ap" "module_index ms x = Some j" by blast
  with x(2) have "?i < ap" by simp
  then show ?thesis by simp
qed

lemma graph_inv_closed: "graph_inv ms ap \<Longrightarrow> closed ms"
  unfolding graph_inv_def closed_adj_def closed_def nbrs_def by blast

lemma card_white_le: "card (white ms) \<le> card (present ms)"
  unfolding white_def by (intro card_mono finite_present) auto

lemma card_unindexed_le: "card (present ms - indexed ms) \<le> card (present ms)"
  by (intro card_mono finite_present) auto

lemma module_sorting_black: "module_sorting ms k \<longleftrightarrow> k \<in> black ms"
  by (auto simp: module_sorting_def black_def split: option.splits)

lemma serialize_loop_Cons:
  assumes "lookup ms k = Some m"
    and "(if \<not> indexing m
          then map_option (\<lambda>(r, ms1). (r, ms1, ap + 1))
                 (collectionAdjacencyIndex fuel k ap ms)
          else Some (Inr (), ms, ap)) = Some (Inr u, ms1, ap1)"
  shows "serialize_loop fuel (k # ks) (ms, stk, ap) =
          (if module_sorting ms1 k then serialize_loop fuel ks (ms1, stk, ap1)
           else (case collectionTopoSort fuel k (ms1, stk) of
                   None \<Rightarrow> None
                 | Some (Inl e, ms2, stk2) \<Rightarrow> Some (Inl e, ms2, stk2, ap1)
                 | Some (Inr _, ms2, stk2) \<Rightarrow> serialize_loop fuel ks (ms2, stk2, ap1)))"
  using assms by simp

lemma index_phase:
  assumes inv: "loop_inv ms stk ap" and l: "lookup ms k = Some m"
    and fuel: "card (present ms) < fuel"
  shows "\<exists>ms1 ap1.
          (if \<not> indexing m
           then map_option (\<lambda>(r, ms1). (r, ms1, ap + 1))
                  (collectionAdjacencyIndex fuel k ap ms)
           else Some (Inr (), ms, ap)) = Some (Inr (), ms1, ap1)
          \<and> graph_inv ms1 ap1 \<and> stack_inv ms1 stk \<and> same_graph ms ms1
          \<and> black ms1 = black ms \<and> k \<in> indexed ms1
          \<and> (ap1 = ap \<or> (ap1 = Suc ap \<and> k \<notin> black ms1 \<and> module_index ms1 k = Some ap))"
proof (cases "indexing m")
  case True
  then have "k \<in> indexed ms" using l by (simp add: indexed_def)
  with True inv show ?thesis
    by (intro exI[of _ ms] exI[of _ ap]) (simp add: loop_inv_def same_graph_refl)
next
  case False
  from inv have G: "graph_inv ms ap" and S: "stack_inv ms stk" by (simp_all add: loop_inv_def)
  from G have bi: "black ms \<subseteq> indexed ms" and ca: "closed_adj ms"
    by (simp_all add: graph_inv_def)
  have kp: "k \<in> present ms" using l by (simp add: present_def)
  have kn: "k \<notin> indexed ms" using l False by (simp add: indexed_def)
  have "card (present ms - indexed ms) < fuel"
    using card_unindexed_le[of ms] fuel by simp
  from adjacencyIndex_fuel(1)[OF this] obtain r0 ms1 where
    ai: "collectionAdjacencyIndex fuel k ap ms = Some (r0, ms1)" by fastforce
  have "\<exists>u. r0 = Inr u"
  proof (cases r0)
    case (Inl e)
    from adjacencyIndex_no_error(1)[OF ai[unfolded Inl] ca kp] show ?thesis by simp
  next
    case (Inr u)
    then show ?thesis by simp
  qed
  then have r0: "r0 = Inr ()" by auto
  from adjacencyIndex_step(1)[OF ai[unfolded r0]] have st: "index_step ms ms1 ap {k}" .
  then have f: "index_frame ms ms1" by (rule index_step_frame)
  have k1: "k \<in> indexed ms1" using st by (simp add: index_step_def)
  with kn st have ki: "module_index ms1 k = Some ap" by (simp add: index_step_def)
  have b1: "black ms1 = black ms" using f by (rule index_frame_views)
  have "graph_inv ms1 (Suc ap)" using G st by (rule graph_inv_index_step)
  moreover have "stack_inv ms1 stk" using S bi st by (rule stack_inv_index_step)
  moreover have "same_graph ms ms1" using f by (rule index_frame_same_graph)
  moreover have "k \<notin> black ms1" using b1 bi kn by auto
  ultimately show ?thesis
    using False ai r0 b1 k1 ki
    by (intro exI[of _ ms1] exI[of _ "Suc ap"]) simp
qed

lemma sort_phase:
  assumes G1: "graph_inv ms1 ap1" and S1: "stack_inv ms1 stk"
    and len: "length (elements stk) = ap \<and> (ap1 = ap \<or> ap1 = Suc ap \<and> k \<notin> black ms1 \<and> module_index ms1 k = Some ap)"
    and k1: "k \<in> indexed ms1"
    and ts: "collectionTopoSort fuel k (ms1, stk) = Some (Inr u, ms2, stk2)"
  shows "loop_inv ms2 stk2 ap1 \<and> same_graph ms1 ms2 \<and> black ms1 \<subseteq> black ms2 \<and> k \<in> black ms2"
proof -
  from topoSort_frame(1)[OF ts] have f: "sort_frame ms1 ms2" and ok: "sort_ok ms1 ms2"
    and kb': "k \<in> present ms1 \<longrightarrow> k \<in> black ms2" by simp_all
  from k1 have "k \<in> present ms1" using indexed_present[of ms1] by auto
  with kb' have kb: "k \<in> black ms2" by simp
  from G1 have bi1: "black ms1 \<subseteq> indexed ms1" by (simp add: graph_inv_def)
  from len have "ap1 \<le> Suc (length (elements stk))" by auto
  with G1 have iok: "indexed_ok ms1 (length (elements stk))" by (rule graph_inv_indexed_ok)
  from topoSort_stack(1)[OF ts] iok S1 k1 bi1
  have S2: "stack_inv ms2 stk2" and mono: "length (elements stk) \<le> length (elements stk2)"
    and bi2: "black ms2 \<subseteq> indexed ms2" by simp_all
  from G1 f ok bi2 have G2: "graph_inv ms2 ap1" by (rule graph_inv_sort)
  then have bd: "\<forall>k \<in> indexed ms2. \<exists>j < ap1. module_index ms2 k = Some j"
    by (simp add: graph_inv_def)
  from S2 bi2 bd have up: "length (elements stk2) \<le> ap1" by (rule stack_length_le)
  have i2: "module_index ms2 = module_index ms1" using f by (rule sort_frame_index)
  have low: "ap1 \<le> length (elements stk2)"
  proof (cases "ap1 = ap")
    case True
    with len mono show ?thesis by simp
  next
    case False
    with len have ki: "module_index ms1 k = Some ap" and a: "ap1 = Suc ap" by auto
    from S2 kb obtain i where "i < length (elements stk2)" "module_index ms2 k = Some i"
      unfolding stack_inv_def by blast
    with ki i2 a show ?thesis by simp
  qed
  have bm: "black ms1 \<subseteq> black ms2" using ok by (simp add: sort_ok_def)
  from G2 S2 up low bm kb sort_frame_same_graph[OF f] show ?thesis
    by (simp add: loop_inv_def)
qed

lemma serialize_loop_correct:
  assumes "loop_inv ms stk ap" and "set ks \<subseteq> present ms" and "card (present ms) < fuel"
  shows "\<exists>r ms' stk' ap'. serialize_loop fuel ks (ms, stk, ap) = Some (r, ms', stk', ap')
     \<and> (\<forall>e. r = Inl e \<longrightarrow> (\<exists>x. e = CyclicDependency x \<and> (x, x) \<in> (req_rel ms)\<^sup>+))
     \<and> (\<forall>u. r = Inr u \<longrightarrow> loop_inv ms' stk' ap' \<and> same_graph ms ms'
            \<and> black ms \<union> set ks \<subseteq> black ms')"
  using assms
proof (induction ks arbitrary: ms stk ap)
  case Nil
  then show ?case by (simp add: same_graph_refl)
next
  case (Cons k ks)
  from Cons.prems(2) obtain m where l: "lookup ms k = Some m" by (auto simp: present_def)
  from index_phase[OF Cons.prems(1) l Cons.prems(3)] obtain ms1 ap1 where
    A: "(if \<not> indexing m
          then map_option (\<lambda>(r, ms1). (r, ms1, ap + 1))
                 (collectionAdjacencyIndex fuel k ap ms)
          else Some (Inr (), ms, ap)) = Some (Inr (), ms1, ap1)"
    and G1: "graph_inv ms1 ap1" and S1: "stack_inv ms1 stk" and sg1: "same_graph ms ms1"
    and b1: "black ms1 = black ms" and k1: "k \<in> indexed ms1"
    and bnd: "ap1 = ap \<or> (ap1 = Suc ap \<and> k \<notin> black ms1 \<and> module_index ms1 k = Some ap)"
    by blast
  note eq = serialize_loop_Cons[OF l A, of ks stk]
  from Cons.prems(1) have len: "length (elements stk) = ap" by (simp add: loop_inv_def)
  have p1: "present ms1 = present ms" using sg1 by (simp add: same_graph_def)
  note r1 = same_graph_rel(1)[OF sg1]
  show ?case
  proof (cases "module_sorting ms1 k")
    case True
    then have kb: "k \<in> black ms1" by (simp add: module_sorting_black)
    with bnd have a: "ap1 = ap" by auto
    from G1 S1 len a have inv1: "loop_inv ms1 stk ap1" by (simp add: loop_inv_def)
    from Cons.prems(2,3) p1 have q: "set ks \<subseteq> present ms1" "card (present ms1) < fuel"
      by simp_all
    from Cons.IH[OF inv1 q] obtain r ms' stk' ap' where
      res: "serialize_loop fuel ks (ms1, stk, ap1) = Some (r, ms', stk', ap')"
      and er: "\<forall>e. r = Inl e \<longrightarrow> (\<exists>x. e = CyclicDependency x \<and> (x, x) \<in> (req_rel ms1)\<^sup>+)"
      and okr: "\<forall>u. r = Inr u \<longrightarrow> loop_inv ms' stk' ap' \<and> same_graph ms1 ms'
            \<and> black ms1 \<union> set ks \<subseteq> black ms'" by blast
    from eq True res have
      "serialize_loop fuel (k # ks) (ms, stk, ap) = Some (r, ms', stk', ap')" by simp
    moreover from er r1 have
      "\<forall>e. r = Inl e \<longrightarrow> (\<exists>x. e = CyclicDependency x \<and> (x, x) \<in> (req_rel ms)\<^sup>+)" by simp
    moreover from okr kb b1 sg1 have
      "\<forall>u. r = Inr u \<longrightarrow> loop_inv ms' stk' ap' \<and> same_graph ms ms'
            \<and> black ms \<union> set (k # ks) \<subseteq> black ms'"
      using same_graph_trans by auto
    ultimately show ?thesis by blast
  next
    case False
    have "card (white (fst (ms1, stk))) < fuel"
      using card_white_le[of ms1] Cons.prems(3) p1 by simp
    from topoSort_fuel(1)[OF this, of k] obtain r2 ms2 stk2 where
      ts: "collectionTopoSort fuel k (ms1, stk) = Some (r2, ms2, stk2)" by fastforce
    show ?thesis
    proof (cases r2)
      case (Inl e)
      from G1 have cl: "closed ms1" by (rule graph_inv_closed)
      from G1 have g: "gray ms1 = {}" by (simp add: graph_inv_def)
      from k1 have kp: "k \<in> present ms1" using indexed_present[of ms1] by auto
      from topoSort_fail(1)[OF ts[unfolded Inl]] cl kp g
      have "\<exists>x. e = CyclicDependency x \<and> (x, x) \<in> (req_rel ms1)\<^sup>+" by simp
      with r1 have c: "\<exists>x. e = CyclicDependency x \<and> (x, x) \<in> (req_rel ms)\<^sup>+" by simp
      from eq False ts Inl have
        "serialize_loop fuel (k # ks) (ms, stk, ap) = Some (Inl e, ms2, stk2, ap1)" by simp
      with c show ?thesis by simp
    next
      case (Inr u)
      from len bnd have len': "length (elements stk) = ap \<and> (ap1 = ap \<or> ap1 = Suc ap \<and> k \<notin> black ms1 \<and> module_index ms1 k = Some ap)"
        by simp
      from sort_phase[OF G1 S1 len' k1 ts[unfolded Inr]]
      have inv2: "loop_inv ms2 stk2 ap1" and sg2: "same_graph ms1 ms2"
        and bm: "black ms1 \<subseteq> black ms2" and kb: "k \<in> black ms2" by simp_all
      have sg: "same_graph ms ms2" using sg1 sg2 by (rule same_graph_trans)
      then have p2: "present ms2 = present ms" by (simp add: same_graph_def)
      note r2 = same_graph_rel(1)[OF sg]
      from Cons.prems(2,3) p2 have q: "set ks \<subseteq> present ms2" "card (present ms2) < fuel"
        by simp_all
      from Cons.IH[OF inv2 q] obtain r ms' stk' ap' where
        res: "serialize_loop fuel ks (ms2, stk2, ap1) = Some (r, ms', stk', ap')"
        and er: "\<forall>e. r = Inl e \<longrightarrow> (\<exists>x. e = CyclicDependency x \<and> (x, x) \<in> (req_rel ms2)\<^sup>+)"
        and okr: "\<forall>u. r = Inr u \<longrightarrow> loop_inv ms' stk' ap' \<and> same_graph ms2 ms'
            \<and> black ms2 \<union> set ks \<subseteq> black ms'" by blast
      from eq False ts Inr res have
        "serialize_loop fuel (k # ks) (ms, stk, ap) = Some (r, ms', stk', ap')" by simp
      moreover from er r2 have
        "\<forall>e. r = Inl e \<longrightarrow> (\<exists>x. e = CyclicDependency x \<and> (x, x) \<in> (req_rel ms)\<^sup>+)" by simp
      moreover from okr kb bm b1 sg have
        "\<forall>u. r = Inr u \<longrightarrow> loop_inv ms' stk' ap' \<and> same_graph ms ms'
            \<and> black ms \<union> set (k # ks) \<subseteq> black ms'"
        using same_graph_trans by auto
      ultimately show ?thesis by blast
    qed
  qed
qed

section \<open>Well-formed collections\<close>

lemma lookup_distinct:
  "distinct (map name ms) \<Longrightarrow> m \<in> set ms \<Longrightarrow> lookup ms (name m) = Some m"
  unfolding lookup_def by (induction ms) auto

lemma present_names: "present ms = name ` set ms"
  unfolding present_def using lookup_None_iff[of ms] by auto

lemma req_rel_edges:
  assumes d: "distinct (map name ms)"
  shows "req_rel ms = requires_edges ms"
proof (rule set_eqI)
  fix p :: "string \<times> string"
  obtain a b where p: "p = (a, b)" by (cases p)
  have "(a, b) \<in> req_rel ms \<longleftrightarrow> (a, b) \<in> requires_edges ms"
  proof
    assume "(a, b) \<in> req_rel ms"
    then have b: "b \<in> set (reqs ms a)" by (simp add: req_rel_def)
    then obtain m where m: "lookup ms a = Some m" by (cases "lookup ms a") (auto simp: reqs_def)
    from m have "m \<in> set ms" "name m = a" by (rule lookup_in_set, rule lookup_name)
    moreover from b m have "b \<in> set (requires m)" by (simp add: reqs_def)
    ultimately show "(a, b) \<in> requires_edges ms" unfolding requires_edges_def by blast
  next
    assume "(a, b) \<in> requires_edges ms"
    then obtain m where m: "m \<in> set ms" "a = name m" "b \<in> set (requires m)"
      unfolding requires_edges_def by blast
    from lookup_distinct[OF d m(1)] m(2,3) show "(a, b) \<in> req_rel ms"
      by (simp add: req_rel_def reqs_def)
  qed
  with p show "p \<in> req_rel ms \<longleftrightarrow> p \<in> requires_edges ms" by simp
qed

lemma dep_rel_edges:
  assumes wf: "well_formed ms"
  shows "{(a, b). b \<in> set (deps ms a)} = (requires_edges ms)\<inverse>"
proof (rule set_eqI)
  fix p :: "string \<times> string"
  obtain a b where p: "p = (a, b)" by (cases p)
  from wf have d: "distinct (map name ms)" by (simp add: well_formed_def)
  have "b \<in> set (deps ms a) \<longleftrightarrow> (b, a) \<in> requires_edges ms"
  proof
    assume b: "b \<in> set (deps ms a)"
    then obtain m where m: "lookup ms a = Some m" by (cases "lookup ms a") (auto simp: deps_def)
    from m have ms: "m \<in> set ms" and nm: "name m = a" by (rule lookup_in_set, rule lookup_name)
    from b m have "b \<in> set (dependants m)" by (simp add: deps_def)
    with wf ms obtain q where "q \<in> set ms" "name q = b" "name m \<in> set (requires q)"
      unfolding well_formed_def by blast
    with nm show "(b, a) \<in> requires_edges ms" unfolding requires_edges_def by blast
  next
    assume "(b, a) \<in> requires_edges ms"
    then obtain q where q: "q \<in> set ms" "b = name q" "a \<in> set (requires q)"
      unfolding requires_edges_def by blast
    with wf obtain m where m: "m \<in> set ms" "name m = a" "name q \<in> set (dependants m)"
      unfolding well_formed_def by blast
    from lookup_distinct[OF d m(1)] m(2,3) q(2) show "b \<in> set (deps ms a)"
      by (simp add: deps_def)
  qed
  with p show "p \<in> {(a, b). b \<in> set (deps ms a)} \<longleftrightarrow> p \<in> (requires_edges ms)\<inverse>" by simp
qed

lemma adj_rel_edges:
  assumes wf: "well_formed ms"
  shows "adj_rel ms = requires_edges ms \<union> (requires_edges ms)\<inverse>"
proof -
  from wf have d: "distinct (map name ms)" by (simp add: well_formed_def)
  have "adj_rel ms = req_rel ms \<union> {(a, b). b \<in> set (deps ms a)}"
    by (auto simp: adj_rel_def nbrs_def req_rel_def)
  then show ?thesis by (simp add: req_rel_edges[OF d] dep_rel_edges[OF wf])
qed

lemma well_formed_closed_adj:
  assumes wf: "well_formed ms"
  shows "closed_adj ms"
  unfolding closed_adj_def
proof (intro allI subsetI)
  fix k x assume "x \<in> nbrs ms k"
  then have "(k, x) \<in> adj_rel ms" by (simp add: adj_rel_def)
  then have "(k, x) \<in> requires_edges ms \<or> (x, k) \<in> requires_edges ms"
    by (simp add: adj_rel_edges[OF wf])
  then show "x \<in> present ms"
  proof
    assume "(k, x) \<in> requires_edges ms"
    then obtain m where "m \<in> set ms" "x \<in> set (requires m)"
      unfolding requires_edges_def by blast
    with wf obtain q where "q \<in> set ms" "name q = x" unfolding well_formed_def by blast
    then show ?thesis unfolding present_names by blast
  next
    assume "(x, k) \<in> requires_edges ms"
    then obtain m where "m \<in> set ms" "x = name m" unfolding requires_edges_def by blast
    then show ?thesis unfolding present_names by blast
  qed
qed

lemma clean_views:
  assumes "clean ms"
  shows "gray ms = {}" "black ms = {}" "indexed ms = {}"
  using assms lookup_in_set[of ms]
  by (auto simp: clean_def gray_def black_def indexed_def)

lemma loop_inv_initial:
  assumes wf: "well_formed ms" and cl: "clean ms"
  shows "loop_inv ms \<lparr>elements = [], undefined_element = None\<rparr> 0"
proof -
  have "sym (adj_rel ms)" unfolding adj_rel_edges[OF wf] by (rule symI) blast
  with well_formed_closed_adj[OF wf] clean_views[OF cl] show ?thesis
    by (simp add: loop_inv_def graph_inv_def stack_inv_def)
qed

lemma card_present_le: "card (present ms) \<le> length ms"
proof -
  have "card (name ` set ms) \<le> card (set ms)" by (rule card_image_le) simp
  also have "\<dots> \<le> length ms" by (rule card_length)
  finally show ?thesis by (simp add: present_names)
qed

section \<open>Buckets and components\<close>

lemma ordered_append:
  assumes a: "ordered ms a" and b: "ordered ms b"
  shows "ordered ms (a @ b)"
  unfolding ordered_def
proof (intro allI impI)
  fix j assume j: "j < length (a @ b)"
  show "set (reqs ms ((a @ b) ! j)) \<subseteq> set (take j (a @ b))"
  proof (cases "j < length a")
    case True
    with a show ?thesis by (simp add: ordered_def nth_append)
  next
    case False
    with j have "j - length a < length b" by simp
    with b have "set (reqs ms (b ! (j - length a))) \<subseteq> set (take (j - length a) b)"
      by (simp add: ordered_def)
    with False show ?thesis by (auto simp: nth_append)
  qed
qed

lemma ordered_concat: "\<forall>b \<in> set bs. ordered ms b \<Longrightarrow> ordered ms (concat bs)"
proof (induction bs)
  case Nil
  then show ?case by (simp add: ordered_def)
next
  case (Cons b bs)
  then show ?case by (simp add: ordered_append)
qed

lemma in_take_nth: "x \<in> set (take p xs) \<Longrightarrow> \<exists>q < p. q < length xs \<and> xs ! q = x"
  by (auto simp: in_set_conv_nth)

lemma ordered_path:
  assumes o: "ordered ms xs" and s: "present ms \<subseteq> set xs"
    and p: "(a, b) \<in> (req_rel ms)\<^sup>+"
  shows "\<exists>p q. q < p \<and> p < length xs \<and> xs ! p = a \<and> xs ! q = b"
  using p
proof (induction rule: trancl_induct)
  case (base y)
  then have y: "y \<in> set (reqs ms a)" by (simp add: req_rel_def)
  then have "a \<in> present ms" by (cases "lookup ms a") (auto simp: reqs_def present_def)
  with s have "a \<in> set xs" by blast
  then obtain p where p: "p < length xs" "xs ! p = a" unfolding in_set_conv_nth by blast
  with o y have "y \<in> set (take p xs)" unfolding ordered_def by blast
  from in_take_nth[OF this] p show ?case by blast
next
  case (step y z)
  then obtain p q where pq: "q < p" "p < length xs" "xs ! p = a" "xs ! q = y" by blast
  from step(2) have "z \<in> set (reqs ms y)" by (simp add: req_rel_def)
  from pq have ql: "q < length xs" by simp
  with o have "set (reqs ms (xs ! q)) \<subseteq> set (take q xs)" unfolding ordered_def by blast
  with pq(4) \<open>z \<in> set (reqs ms y)\<close> have "z \<in> set (take q xs)" by auto
  from in_take_nth[OF this] obtain q' where "q' < q" "xs ! q' = z" by blast
  with pq show ?case by (intro exI[of _ p] exI[of _ q']) simp
qed

lemma ordered_acyclic:
  assumes o: "ordered ms xs" and s: "present ms \<subseteq> set xs" and d: "distinct xs"
  shows "acyclic (req_rel ms)"
  unfolding acyclic_def
proof (intro allI notI)
  fix x assume "(x, x) \<in> (req_rel ms)\<^sup>+"
  from ordered_path[OF o s this] obtain p q where pq:
    "q < p" "p < length xs" "xs ! p = x" "xs ! q = x" by blast
  from pq have "q < length xs" "p < length xs" "xs ! p = xs ! q" "p \<noteq> q" by simp_all
  with d show False using nth_eq_iff_index_eq[of xs p q] by simp
qed

lemma stack_buckets:
  assumes inv: "stack_inv ms stk"
  shows "\<exists>bs. stk = buckets_of bs \<and> length bs = length (elements stk)
            \<and> (\<forall>i < length bs. bucket_ok ms i (bs ! i))"
proof -
  let ?bs = "map the (elements stk)"
  from inv have e: "\<forall>i < length (elements stk). \<exists>b. elements stk ! i = Some b \<and> bucket_ok ms i b"
    and u: "undefined_element stk = None" by (simp_all add: stack_inv_def)
  have "elements stk = map Some ?bs"
  proof (rule nth_equalityI)
    show "length (elements stk) = length (map Some ?bs)" by simp
  next
    fix i assume "i < length (elements stk)"
    with e show "elements stk ! i = map Some ?bs ! i" by auto
  qed
  with u have "stk = buckets_of ?bs" unfolding buckets_of_def by (cases stk) simp
  moreover have "\<forall>i < length ?bs. bucket_ok ms i (?bs ! i)"
  proof (intro allI impI)
    fix i assume "i < length ?bs"
    then have i: "i < length (elements stk)" by simp
    with e obtain b where "elements stk ! i = Some b" "bucket_ok ms i b" by blast
    with i show "bucket_ok ms i (?bs ! i)" by simp
  qed
  ultimately show ?thesis by (intro exI[of _ ?bs]) simp
qed

lemma final_buckets:
  assumes inv: "loop_inv ms' stk ap" and sg: "same_graph ms ms'"
    and all: "present ms \<subseteq> black ms'" and wf: "well_formed ms"
  shows "\<exists>bs. stk = buckets_of bs \<and> component_buckets ms bs \<and> (\<forall>b \<in> set bs. ordered ms b)"
proof -
  from inv have G: "graph_inv ms' ap" and S: "stack_inv ms' stk" by (simp_all add: loop_inv_def)
  from sg have p: "present ms' = present ms" and r: "reqs ms' = reqs ms"
    by (simp_all add: same_graph_def)
  note a = same_graph_rel(2)[OF sg]
  from G have bi: "black ms' \<subseteq> indexed ms'" by (simp add: graph_inv_def)
  have bl: "black ms' = present ms" using all bi indexed_present[of ms'] p by auto
  have ix: "indexed ms' = present ms" using all bi indexed_present[of ms'] p by auto
  from G have cl: "\<forall>k \<in> indexed ms'. nbrs ms' k \<subseteq> indexed ms'"
    and eq: "\<forall>k \<in> indexed ms'. \<forall>k' \<in> indexed ms'.
           module_index ms' k = module_index ms' k' \<longleftrightarrow> (k, k') \<in> (adj_rel ms')\<^sup>*"
    by (simp_all add: graph_inv_def)
  have wc: "weakly_connected ms = (adj_rel ms')\<^sup>*"
    by (simp add: weakly_connected_def a adj_rel_edges[OF wf])
  from stack_buckets[OF S] obtain bs where bs: "stk = buckets_of bs"
    "length bs = length (elements stk)" "\<forall>i < length bs. bucket_ok ms' i (bs ! i)" by blast
  have mem: "\<And>i. i < length bs \<Longrightarrow>
      set (bs ! i) = {k \<in> present ms. module_index ms' k = Some i}"
    using bs(3) bl by (simp add: bucket_ok_def)
  have ne: "\<And>i. i < length bs \<Longrightarrow> bs ! i \<noteq> []" using bs(3) by (simp add: bucket_ok_def)
  have di: "\<And>i. i < length bs \<Longrightarrow> distinct (bs ! i)" using bs(3) by (simp add: bucket_ok_def)
  have or: "\<And>i. i < length bs \<Longrightarrow> ordered ms (bs ! i)"
    using bs(3) by (simp add: bucket_ok_def ordered_def r)
  have same: "\<And>i j x. i < length bs \<Longrightarrow> j < length bs \<Longrightarrow> x \<in> set (bs ! i) \<Longrightarrow>
      x \<in> set (bs ! j) \<Longrightarrow> i = j"
    using mem by auto
  have cov: "\<And>k. k \<in> present ms \<Longrightarrow> \<exists>i < length bs. k \<in> set (bs ! i)"
  proof -
    fix k assume k: "k \<in> present ms"
    with bl have "k \<in> black ms'" by simp
    with S obtain i where i: "i < length (elements stk)" "module_index ms' k = Some i"
      unfolding stack_inv_def by blast
    with bs(2) k mem[of i] show "\<exists>i < length bs. k \<in> set (bs ! i)"
      by (intro exI[of _ i]) simp
  qed
  have set_eq: "set (concat bs) = name ` set ms"
  proof -
    have "set (concat bs) = present ms"
    proof (intro equalityI subsetI)
      fix x assume "x \<in> set (concat bs)"
      then obtain b where "b \<in> set bs" "x \<in> set b" by auto
      then obtain i where "i < length bs" "x \<in> set (bs ! i)" by (auto simp: in_set_conv_nth)
      with mem[of i] show "x \<in> present ms" by simp
    next
      fix x assume "x \<in> present ms"
      from cov[OF this] obtain i where "i < length bs" "x \<in> set (bs ! i)" by blast
      then have "bs ! i \<in> set bs" "x \<in> set (bs ! i)" by simp_all
      then show "x \<in> set (concat bs)" unfolding set_concat by blast
    qed
    then show ?thesis by (simp add: present_names)
  qed
  have dbs: "distinct bs"
    unfolding distinct_conv_nth
  proof (intro allI impI)
    fix i j assume ij: "i < length bs" "j < length bs" "i \<noteq> j"
    from ne[OF ij(1)] obtain x where x: "x \<in> set (bs ! i)" by (cases "bs ! i") auto
    show "bs ! i \<noteq> bs ! j"
    proof
      assume "bs ! i = bs ! j"
      with x have "x \<in> set (bs ! j)" by simp
      from same[OF ij(1,2) x this] ij(3) show False by simp
    qed
  qed
  have dc: "distinct (concat bs)"
  proof (rule distinct_concat[OF dbs])
    fix ys assume "ys \<in> set bs"
    then obtain i where "i < length bs" "ys = bs ! i" by (auto simp: in_set_conv_nth)
    with di show "distinct ys" by simp
  next
    fix ys zs assume "ys \<in> set bs" "zs \<in> set bs" "ys \<noteq> zs"
    then obtain i j where ij: "i < length bs" "ys = bs ! i" "j < length bs" "zs = bs ! j"
      by (auto simp: in_set_conv_nth)
    show "set ys \<inter> set zs = {}"
    proof (rule ccontr)
      assume "set ys \<inter> set zs \<noteq> {}"
      then obtain x where "x \<in> set ys" "x \<in> set zs" by blast
      with ij same[of i j x] have "i = j" by simp
      with ij \<open>ys \<noteq> zs\<close> show False by simp
    qed
  qed
  have comp: "\<forall>b \<in> set bs. b \<noteq> [] \<and> (\<forall>x \<in> set b. set b = {y. (x, y) \<in> weakly_connected ms})"
  proof
    fix b assume "b \<in> set bs"
    then obtain i where i: "i < length bs" "b = bs ! i" by (auto simp: in_set_conv_nth)
    have "\<forall>x \<in> set b. set b = {y. (x, y) \<in> weakly_connected ms}"
    proof
      fix x assume "x \<in> set b"
      with i mem[of i] have x: "x \<in> present ms" "module_index ms' x = Some i" by simp_all
      from x(1) ix have xi: "x \<in> indexed ms'" by simp
      show "set b = {y. (x, y) \<in> weakly_connected ms}"
      proof (intro equalityI subsetI)
        fix y assume "y \<in> set b"
        with i mem[of i] have y: "y \<in> present ms" "module_index ms' y = Some i" by simp_all
        from y(1) ix have "y \<in> indexed ms'" by simp
        with eq xi have "module_index ms' x = module_index ms' y
            \<longleftrightarrow> (x, y) \<in> (adj_rel ms')\<^sup>*" by blast
        with x(2) y(2) have "(x, y) \<in> (adj_rel ms')\<^sup>*" by simp
        then show "y \<in> {y. (x, y) \<in> weakly_connected ms}" by (simp add: wc)
      next
        fix y assume "y \<in> {y. (x, y) \<in> weakly_connected ms}"
        then have xy: "(x, y) \<in> (adj_rel ms')\<^sup>*" by (simp add: wc)
        from closed_reach[OF cl xy xi] have yi: "y \<in> indexed ms'" .
        with eq xi have "module_index ms' x = module_index ms' y
            \<longleftrightarrow> (x, y) \<in> (adj_rel ms')\<^sup>*" by blast
        with xy have "module_index ms' x = module_index ms' y" by simp
        with x(2) yi ix i mem[of i] show "y \<in> set b" by simp
      qed
    qed
    with ne i show "b \<noteq> [] \<and> (\<forall>x \<in> set b. set b = {y. (x, y) \<in> weakly_connected ms})"
      by simp
  qed
  have "\<forall>b \<in> set bs. ordered ms b"
  proof
    fix b assume "b \<in> set bs"
    then obtain i where "i < length bs" "b = bs ! i" by (auto simp: in_set_conv_nth)
    with or show "ordered ms b" by simp
  qed
  with bs(1) dc set_eq comp show ?thesis
    unfolding component_buckets_def by blast
qed

lemma serialize_result:
  assumes wf: "well_formed (modules c)" and cl: "clean (modules c)"
    and fuel: "length (modules c) < fuel"
  shows "(\<exists>x c'. serialize fuel c = Some (Inl (CyclicDependency x), c')
            \<and> (x, x) \<in> (requires_edges (modules c))\<^sup>+)
       \<or> (\<exists>bs c'. serialize fuel c = Some (Inr (buckets_of bs), c')
            \<and> component_buckets (modules c) bs \<and> (\<forall>b \<in> set bs. ordered (modules c) b))"
proof -
  let ?ms = "modules c"
  from wf have d: "distinct (map name ?ms)" by (simp add: well_formed_def)
  have ks: "set (map name ?ms) \<subseteq> present ?ms" by (simp add: present_names)
  have f: "card (present ?ms) < fuel" using card_present_le[of ?ms] fuel by simp
  from serialize_loop_correct[OF loop_inv_initial[OF wf cl] ks f]
  obtain r ms' stk' ap' where
    res: "serialize_loop fuel (map name ?ms) (?ms, \<lparr>elements = [], undefined_element = None\<rparr>, 0)
            = Some (r, ms', stk', ap')"
    and er: "\<forall>e. r = Inl e \<longrightarrow> (\<exists>x. e = CyclicDependency x \<and> (x, x) \<in> (req_rel ?ms)\<^sup>+)"
    and ok: "\<forall>u. r = Inr u \<longrightarrow> loop_inv ms' stk' ap' \<and> same_graph ?ms ms'
            \<and> black ?ms \<union> set (map name ?ms) \<subseteq> black ms'" by blast
  show ?thesis
  proof (cases r)
    case (Inl e)
    with er obtain x where x: "e = CyclicDependency x" "(x, x) \<in> (req_rel ?ms)\<^sup>+" by blast
    from res Inl x(1) have "serialize fuel c = Some (Inl (CyclicDependency x), c\<lparr>modules := ms'\<rparr>)"
      by (simp add: serialize_def)
    with x(2) show ?thesis unfolding req_rel_edges[OF d] by blast
  next
    case (Inr u)
    with ok have inv: "loop_inv ms' stk' ap'" and sg: "same_graph ?ms ms'"
      and all: "present ?ms \<subseteq> black ms'" by (simp_all add: present_names)
    from final_buckets[OF inv sg all wf] obtain bs where
      bs: "stk' = buckets_of bs" "component_buckets ?ms bs" "\<forall>b \<in> set bs. ordered ?ms b"
      by blast
    from res Inr bs(1) have "serialize fuel c = Some (Inr (buckets_of bs),
        c\<lparr>modules := map (\<lambda>m. m\<lparr>sorting := False, indexing := False\<rparr>) ms'\<rparr>)"
      by (simp add: serialize_def)
    with bs(2,3) show ?thesis by blast
  qed
qed

lemma buckets_acyclic:
  assumes d: "distinct (map name ms)" and cb: "component_buckets ms bs"
    and o: "\<forall>b \<in> set bs. ordered ms b"
  shows "acyclic (requires_edges ms)"
proof -
  from cb have "present ms \<subseteq> set (concat bs)" "distinct (concat bs)"
    by (simp_all add: component_buckets_def present_names)
  with ordered_concat[OF o] have "acyclic (req_rel ms)" by (rule ordered_acyclic)
  then show ?thesis by (simp add: req_rel_edges[OF d])
qed

section \<open>Serialising the example collections\<close>

lemmas serialize_defs = serialize_def lookup_def modify_def module_index_def
  module_sorting_def push_sorted_def linked_Module_def empty_Module_def buckets_of_def

lemma connect_AB_BC: "connect example_AB ''B'' ''C'' = (Inr (edge ''B'' ''C''), example_chain)"
  by (simp add: eval_defs example_AB_def example_chain_def)

lemma two_chains_built:
  "connect (snd (connect (snd (get (snd (get new_ModuleCollection ''A'' True)) ''X'' True))
      ''A'' ''B'')) ''X'' ''Y'' = (Inr (edge ''X'' ''Y''), example_two_chains)"
  by (simp add: eval_defs example_two_chains_def)

lemma isolated_built:
  "snd (get (snd (get (snd (get new_ModuleCollection ''A'' True)) ''B'' True)) ''C'' True)
     = example_isolated"
  by (simp add: eval_defs example_isolated_def)

lemma cycle_built:
  "connect (snd (connect example_AB ''B'' ''C'')) ''C'' ''A''
     = (Inr (edge ''C'' ''A''), example_cycle)"
  by (simp add: eval_defs example_AB_def example_cycle_def)

lemma tail_built:
  "connect (snd (connect (snd (connect new_ModuleCollection ''R'' ''A'')) ''A'' ''B''))
      ''B'' ''A'' = (Inr (edge ''B'' ''A''), example_tail)"
  by (simp add: eval_defs example_tail_def)

lemma serialize_chain:
  "serialize 4 example_chain =
     Some (Inr (buckets_of [[''C'', ''B'', ''A'']]),
           example_chain\<lparr>modules := map (\<lambda>m. m\<lparr>index := Some 0\<rparr>) (modules example_chain)\<rparr>)"
  by (simp add: serialize_defs example_chain_def eval_nat_numeral)

lemma serialize_two_chains:
  "serialize 5 example_two_chains =
     Some (Inr (buckets_of [[''B'', ''A''], [''Y'', ''X'']]),
           example_two_chains\<lparr>modules :=
             [(linked_Module ''A'' [''B''] [])\<lparr>index := Some 0\<rparr>,
              (linked_Module ''X'' [''Y''] [])\<lparr>index := Some 1\<rparr>,
              (linked_Module ''B'' [] [''A''])\<lparr>index := Some 0\<rparr>,
              (linked_Module ''Y'' [] [''X''])\<lparr>index := Some 1\<rparr>]\<rparr>)"
  by (simp add: serialize_defs example_two_chains_def eval_nat_numeral)

lemma serialize_isolated:
  "serialize 4 example_isolated =
     Some (Inr (buckets_of [[''A''], [''B''], [''C'']]),
           example_isolated\<lparr>modules :=
             [(empty_Module ''A'')\<lparr>index := Some 0\<rparr>, (empty_Module ''B'')\<lparr>index := Some 1\<rparr>,
              (empty_Module ''C'')\<lparr>index := Some 2\<rparr>]\<rparr>)"
  by (simp add: serialize_defs example_isolated_def eval_nat_numeral)

lemma serialize_cycle:
  "serialize 4 example_cycle = Some (Inl (CyclicDependency ''A''), example_cycle_failed)"
  by (simp add: serialize_defs example_cycle_def example_cycle_failed_def eval_nat_numeral)

lemma serialize_tail:
  "serialize 4 example_tail = Some (Inl (CyclicDependency ''A''), example_tail_failed)"
  by (simp add: serialize_defs example_tail_def example_tail_failed_def eval_nat_numeral)

lemma serialize_tail_again:
  "serialize 4 example_tail_failed
     = Some (Inl (CyclicDependency ''R''), example_tail_failed_again)"
  by (simp add: serialize_defs example_tail_def example_tail_failed_def
      example_tail_failed_again_def eval_nat_numeral)

section \<open>Serialisation of a collection\<close>

lemma serialize_acyclic:
  assumes wf: "well_formed (modules c)" and cl: "clean (modules c)"
    and ac: "acyclic (requires_edges (modules c))" and fuel: "length (modules c) < fuel"
  shows "\<exists>bs c'. serialize fuel c = Some (Inr (buckets_of bs), c')
            \<and> component_buckets (modules c) bs \<and> (\<forall>b \<in> set bs. ordered (modules c) b)"
proof -
  from ac have "\<And>x. (x, x) \<notin> (requires_edges (modules c))\<^sup>+" by (simp add: acyclic_def)
  with serialize_result[OF wf cl fuel] show ?thesis by blast
qed

lemma serialize_success_acyclic:
  assumes wf: "well_formed (modules c)" and cl: "clean (modules c)"
    and fuel: "length (modules c) < fuel" and res: "serialize fuel c = Some (Inr stk, c')"
  shows "acyclic (requires_edges (modules c))"
proof -
  from wf have d: "distinct (map name (modules c))" by (simp add: well_formed_def)
  from serialize_result[OF wf cl fuel] res obtain bs where
    "component_buckets (modules c) bs" "\<forall>b \<in> set bs. ordered (modules c) b" by auto
  with d show ?thesis by (rule buckets_acyclic)
qed

lemma serialize_cyclic:
  assumes wf: "well_formed (modules c)" and cl: "clean (modules c)"
    and cy: "\<not> acyclic (requires_edges (modules c))" and fuel: "length (modules c) < fuel"
  shows "\<exists>x c'. serialize fuel c = Some (Inl (CyclicDependency x), c')
            \<and> (x, x) \<in> (requires_edges (modules c))\<^sup>+"
proof -
  from serialize_result[OF wf cl fuel] show ?thesis
  proof
    assume "\<exists>bs c'. serialize fuel c = Some (Inr (buckets_of bs), c')
            \<and> component_buckets (modules c) bs \<and> (\<forall>b \<in> set bs. ordered (modules c) b)"
    then obtain bs c' where "serialize fuel c = Some (Inr (buckets_of bs), c')" by blast
    from serialize_success_acyclic[OF wf cl fuel this] cy show ?thesis by simp
  qed
qed

lemma distinct_concat_elem: "distinct (concat bs) \<Longrightarrow> b \<in> set bs \<Longrightarrow> distinct b"
  by (induction bs) auto

lemma sum_list_ones: "\<forall>b \<in> set bs. length b = 1 \<Longrightarrow> sum_list (map length bs) = length bs"
  by (induction bs) auto

lemma component_buckets_edgeless:
  assumes d: "distinct (map name ms)" and cb: "component_buckets ms bs"
    and e: "requires_edges ms = {}"
  shows "length bs = length ms \<and> (\<forall>b \<in> set bs. length b = 1)"
proof -
  from cb have dc: "distinct (concat bs)" and sc: "set (concat bs) = name ` set ms"
    and co: "\<forall>b \<in> set bs. b \<noteq> [] \<and> (\<forall>x \<in> set b. set b = {y. (x, y) \<in> weakly_connected ms})"
    by (simp_all add: component_buckets_def)
  have one: "\<forall>b \<in> set bs. length b = 1"
  proof
    fix b assume b: "b \<in> set bs"
    with co obtain x where x: "x \<in> set b" by (cases b) auto
    with co b have "set b = {y. (x, y) \<in> weakly_connected ms}" by blast
    then have "set b = {x}" by (simp add: weakly_connected_def e)
    then have "card (set b) = 1" by simp
    with distinct_concat_elem[OF dc b] show "length b = 1" by (simp add: distinct_card)
  qed
  have "length bs = length (concat bs)" by (simp add: length_concat sum_list_ones[OF one])
  also have "\<dots> = card (set (concat bs))" by (rule distinct_card[OF dc, symmetric])
  also have "\<dots> = card (set (map name ms))" unfolding sc by simp
  also have "\<dots> = length ms" using d distinct_card[of "map name ms"] by simp
  finally show ?thesis using one by simp
qed

lemma buckets_of_inject: "buckets_of bs = buckets_of bs' \<longleftrightarrow> bs = bs'"
  by (auto simp: buckets_of_def dest: map_injective)

lemma well_formed_chain: "well_formed (modules example_chain)"
  by (simp add: well_formed_def example_chain_def linked_Module_def empty_Module_def)

lemma clean_chain: "clean (modules example_chain)"
  by (simp add: clean_def example_chain_def linked_Module_def empty_Module_def)

lemma well_formed_two_chains: "well_formed (modules example_two_chains)"
  by (simp add: well_formed_def example_two_chains_def linked_Module_def empty_Module_def)

lemma clean_two_chains: "clean (modules example_two_chains)"
  by (simp add: clean_def example_two_chains_def linked_Module_def empty_Module_def)

lemma well_formed_isolated: "well_formed (modules example_isolated)"
  by (simp add: well_formed_def example_isolated_def empty_Module_def)

lemma clean_isolated: "clean (modules example_isolated)"
  by (simp add: clean_def example_isolated_def empty_Module_def)

lemma requires_edges_Union:
  "requires_edges ms = (\<Union>m \<in> set ms. Pair (name m) ` set (requires m))"
  unfolding requires_edges_def by blast

lemma edges_isolated: "requires_edges (modules example_isolated) = {}"
  by (simp add: requires_edges_Union example_isolated_def empty_Module_def)

text \<open>
  Claim C1. For every collection whose requires-edges form no cycle, \<open>serialize\<close>
  returns buckets that hold every module of the collection, and within each
  bucket every module stands strictly after every module it requires: a bucket
  has no repetition, and the requirements of its entry at position \<open>j\<close> are among
  its first \<open>j\<close> entries. The collection is one that \<open>get\<close>, \<open>add\<close> and
  \<open>connect\<close> build (\<open>well_formed\<close>) and that carries no traversal flag
  (\<open>clean\<close>); the recursion depth allowed exceeds the number of modules. For the
  chain where A requires B and B requires C, the single bucket is C, B, A.
\<close>

theorem serialize_orders_requires:
  assumes "well_formed (modules c)" and "clean (modules c)"
    and "acyclic (requires_edges (modules c))" and "length (modules c) < fuel"
  shows "\<exists>bs c'. serialize fuel c = Some (Inr (buckets_of bs), c')
           \<and> set (concat bs) = name ` set (modules c)
           \<and> (\<forall>b \<in> set bs. distinct b \<and> ordered (modules c) b)"
proof -
  from serialize_acyclic[OF assms] obtain bs c' where
    r: "serialize fuel c = Some (Inr (buckets_of bs), c')"
    and cb: "component_buckets (modules c) bs" and o: "\<forall>b \<in> set bs. ordered (modules c) b"
    by blast
  from cb have "distinct (concat bs)" "set (concat bs) = name ` set (modules c)"
    by (simp_all add: component_buckets_def)
  with r o distinct_concat_elem[of bs] show ?thesis by blast
qed

theorem serialize_orders_requires_witness:
  "well_formed (modules example_chain) \<and> clean (modules example_chain)
   \<and> acyclic (requires_edges (modules example_chain)) \<and> length (modules example_chain) < 4
   \<and> (\<exists>bs c'. serialize 4 example_chain = Some (Inr (buckets_of bs), c')
         \<and> bs = [[''C'', ''B'', ''A'']]
         \<and> set (concat bs) = name ` set (modules example_chain)
         \<and> (\<forall>b \<in> set bs. distinct b \<and> ordered (modules example_chain) b))"
proof -
  have l: "length (modules example_chain) < 4" by (simp add: example_chain_def)
  have a: "acyclic (requires_edges (modules example_chain))"
    using well_formed_chain clean_chain l serialize_chain by (rule serialize_success_acyclic)
  from serialize_orders_requires[OF well_formed_chain clean_chain a l]
  obtain bs c' where r: "serialize 4 example_chain = Some (Inr (buckets_of bs), c')"
    "set (concat bs) = name ` set (modules example_chain)"
    "\<forall>b \<in> set bs. distinct b \<and> ordered (modules example_chain) b" by blast
  from r(1) serialize_chain have "bs = [[''C'', ''B'', ''A'']]"
    by (simp add: buckets_of_inject)
  with r well_formed_chain clean_chain a l show ?thesis by blast
qed

text \<open>
  Claim C3. For every such collection \<open>serialize\<close> returns exactly one bucket
  per weakly connected component: every module is in exactly one bucket, no
  bucket is empty, and a bucket holds exactly the modules weakly connected to any
  one of its members; every bucket is in dependency order. When there is no edge,
  there are as many buckets as modules, and every bucket holds one module. Two
  disjoint chains declared interleaved give two buckets, each in dependency
  order.
\<close>

theorem serialize_buckets_components:
  assumes "well_formed (modules c)" and "clean (modules c)"
    and "acyclic (requires_edges (modules c))" and "length (modules c) < fuel"
  shows "\<exists>bs c'. serialize fuel c = Some (Inr (buckets_of bs), c')
           \<and> component_buckets (modules c) bs
           \<and> (\<forall>b \<in> set bs. ordered (modules c) b)
           \<and> (requires_edges (modules c) = {}
                \<longrightarrow> length bs = length (modules c) \<and> (\<forall>b \<in> set bs. length b = 1))"
proof -
  from assms(1) have d: "distinct (map name (modules c))" by (simp add: well_formed_def)
  from serialize_acyclic[OF assms] obtain bs c' where
    r: "serialize fuel c = Some (Inr (buckets_of bs), c')"
    and cb: "component_buckets (modules c) bs" and o: "\<forall>b \<in> set bs. ordered (modules c) b"
    by blast
  from component_buckets_edgeless[OF d cb] r cb o show ?thesis by blast
qed

theorem serialize_buckets_components_witness:
  "well_formed (modules example_two_chains) \<and> clean (modules example_two_chains)
   \<and> acyclic (requires_edges (modules example_two_chains))
   \<and> length (modules example_two_chains) < 5
   \<and> (\<exists>bs c'. serialize 5 example_two_chains = Some (Inr (buckets_of bs), c')
         \<and> bs = [[''B'', ''A''], [''Y'', ''X'']]
         \<and> component_buckets (modules example_two_chains) bs
         \<and> (\<forall>b \<in> set bs. ordered (modules example_two_chains) b))
   \<and> well_formed (modules example_isolated) \<and> clean (modules example_isolated)
   \<and> acyclic (requires_edges (modules example_isolated))
   \<and> length (modules example_isolated) < 4
   \<and> requires_edges (modules example_isolated) = {}
   \<and> (\<exists>bs c'. serialize 4 example_isolated = Some (Inr (buckets_of bs), c')
         \<and> bs = [[''A''], [''B''], [''C'']]
         \<and> length bs = length (modules example_isolated))"
proof -
  have l: "length (modules example_two_chains) < 5" by (simp add: example_two_chains_def)
  have a: "acyclic (requires_edges (modules example_two_chains))"
    using well_formed_two_chains clean_two_chains l serialize_two_chains
    by (rule serialize_success_acyclic)
  from serialize_buckets_components[OF well_formed_two_chains clean_two_chains a l]
  obtain bs c' where r: "serialize 5 example_two_chains = Some (Inr (buckets_of bs), c')"
    "component_buckets (modules example_two_chains) bs"
    "\<forall>b \<in> set bs. ordered (modules example_two_chains) b" by blast
  from r(1) serialize_two_chains have "bs = [[''B'', ''A''], [''Y'', ''X'']]"
    by (simp add: buckets_of_inject)
  with r have one: "\<exists>bs c'. serialize 5 example_two_chains = Some (Inr (buckets_of bs), c')
         \<and> bs = [[''B'', ''A''], [''Y'', ''X'']]
         \<and> component_buckets (modules example_two_chains) bs
         \<and> (\<forall>b \<in> set bs. ordered (modules example_two_chains) b)" by blast
  have l': "length (modules example_isolated) < 4" by (simp add: example_isolated_def)
  have a': "acyclic (requires_edges (modules example_isolated))"
    by (simp add: edges_isolated acyclic_def)
  from serialize_buckets_components[OF well_formed_isolated clean_isolated a' l'] edges_isolated
  obtain bs' c'' where r': "serialize 4 example_isolated = Some (Inr (buckets_of bs'), c'')"
    "length bs' = length (modules example_isolated)" by blast
  from r'(1) serialize_isolated have "bs' = [[''A''], [''B''], [''C'']]"
    by (simp add: buckets_of_inject)
  with r' have two: "\<exists>bs c'. serialize 4 example_isolated = Some (Inr (buckets_of bs), c')
         \<and> bs = [[''A''], [''B''], [''C'']]
         \<and> length bs = length (modules example_isolated)" by blast
  from one two well_formed_two_chains clean_two_chains a l
    well_formed_isolated clean_isolated a' l' edges_isolated
  show ?thesis by blast
qed

text \<open>
  Claim C2. On the collection built by \<open>connect("R", "A")\<close>,
  \<open>connect("A", "B")\<close>, \<open>connect("B", "A")\<close>, a first \<open>serialize\<close> fails naming
  A, which is on the cycle, and leaves the markers of R and B set. The collection
  still contains the cycle; \<open>serialize\<close> on it fails again, and names R, which
  is on no cycle.
\<close>

theorem serialize_again_names_outsider:
  "serialize 4 example_tail = Some (Inl (CyclicDependency ''A''), example_tail_failed)
   \<and> (''A'', ''A'') \<in> (requires_edges (modules example_tail_failed))\<^sup>+
   \<and> serialize 4 example_tail_failed
        = Some (Inl (CyclicDependency ''R''), example_tail_failed_again)
   \<and> (''R'', ''R'') \<notin> (requires_edges (modules example_tail_failed))\<^sup>+"
proof -
  have e: "requires_edges (modules example_tail_failed)
             = {(''R'', ''A''), (''A'', ''B''), (''B'', ''A'')}"
    by (simp add: requires_edges_Union example_tail_failed_def example_tail_def
        linked_Module_def empty_Module_def insert_commute)
  have "(''A'', ''B'') \<in> requires_edges (modules example_tail_failed)"
    "(''B'', ''A'') \<in> requires_edges (modules example_tail_failed)" by (simp_all add: e)
  then have c: "(''A'', ''A'') \<in> (requires_edges (modules example_tail_failed))\<^sup>+"
    by (rule trancl_into_trancl[OF r_into_trancl])
  have "(''R'', ''R'') \<notin> (requires_edges (modules example_tail_failed))\<^sup>+"
  proof
    assume "(''R'', ''R'') \<in> (requires_edges (modules example_tail_failed))\<^sup>+"
    then obtain z where "(z, ''R'') \<in> requires_edges (modules example_tail_failed)"
      by (auto dest: tranclD2)
    then show False by (simp add: e)
  qed
  with c serialize_tail serialize_tail_again show ?thesis by simp
qed

text \<open>
  Claim C8. On the cycle A requires B, B requires C, C requires A, \<open>serialize\<close>
  fails with \<open>CyclicDependency\<close> and leaves \<open>topologicalMarker\<close> set on B and C
  and \<open>indexing\<close> set on all three modules: \<open>collectionTopoSort\<close> deletes the
  marker of the module it names only, and the exception leaves \<open>serialize\<close>
  before the loop that deletes the flags.
\<close>

theorem serialize_cycle_leaves_markers:
  "serialize 4 example_cycle = Some (Inl (CyclicDependency ''A''), example_cycle_failed)
   \<and> map topologicalMarker (modules example_cycle_failed) = [False, True, True]
   \<and> map indexing (modules example_cycle_failed) = [True, True, True]"
  using serialize_cycle
  by (simp add: example_cycle_failed_def linked_Module_def empty_Module_def)

section \<open>What the methods maintain\<close>

text \<open>
  \<open>get\<close>, \<open>add\<close> and \<open>connect\<close> keep a module list well formed and free of
  traversal flags, whatever they return or throw, and so does a call of
  \<open>serialize\<close> that returns a stack: it leaves the names, the edges and no flag.
\<close>

lemma links_flags [simp]:
  "links (m\<lparr>topologicalMarker := a\<rparr>) = links m" "links (m\<lparr>sorting := b\<rparr>) = links m"
  "links (m\<lparr>indexing := c\<rparr>) = links m" "links (m\<lparr>index := d\<rparr>) = links m"
  "links (m\<lparr>source := e\<rparr>) = links m"
  by (simp_all add: links_def)

lemma map_links_modify:
  "(\<And>m. links (f m) = links m) \<Longrightarrow> map links (modify n f ms) = map links ms"
  by (induction ms) (auto simp: modify_def)

lemma map_name_links: "map name ms = map fst (map links ms)"
  by (simp add: links_def comp_def)

lemma map_name_modify:
  "(\<And>m. name (f m) = name m) \<Longrightarrow> map name (modify n f ms) = map name ms"
  by (induction ms) (auto simp: modify_def)

lemma well_formed_iff:
  "well_formed ms \<longleftrightarrow>
     distinct (map name ms) \<and> (\<forall>a b. b \<in> set (reqs ms a) \<longleftrightarrow> a \<in> set (deps ms b))"
proof
  assume wf: "well_formed ms"
  then have d: "distinct (map name ms)" by (simp add: well_formed_def)
  have "\<And>a b. (a, b) \<in> req_rel ms \<longleftrightarrow> (b, a) \<in> {(a, b). b \<in> set (deps ms a)}"
    unfolding req_rel_edges[OF d] dep_rel_edges[OF wf] by simp
  with d show "distinct (map name ms) \<and> (\<forall>a b. b \<in> set (reqs ms a) \<longleftrightarrow> a \<in> set (deps ms b))"
    by (simp add: req_rel_def)
next
  assume r: "distinct (map name ms) \<and> (\<forall>a b. b \<in> set (reqs ms a) \<longleftrightarrow> a \<in> set (deps ms b))"
  then have d: "distinct (map name ms)"
    and mi: "\<And>a b. b \<in> set (reqs ms a) \<longleftrightarrow> a \<in> set (deps ms b)" by simp_all
  show "well_formed ms"
    unfolding well_formed_def
  proof (intro conjI ballI)
    show "distinct (map name ms)" by (rule d)
  next
    fix m r assume m: "m \<in> set ms" and r: "r \<in> set (requires m)"
    from lookup_distinct[OF d m] r have "r \<in> set (reqs ms (name m))" by (simp add: reqs_def)
    then have x: "name m \<in> set (deps ms r)" by (simp add: mi)
    then obtain q where q: "lookup ms r = Some q" by (cases "lookup ms r") (auto simp: deps_def)
    from q have "q \<in> set ms" "name q = r" by (rule lookup_in_set, rule lookup_name)
    moreover from x q have "name m \<in> set (dependants q)" by (simp add: deps_def)
    ultimately show "\<exists>q \<in> set ms. name q = r \<and> name m \<in> set (dependants q)" by blast
  next
    fix m r assume m: "m \<in> set ms" and r: "r \<in> set (dependants m)"
    from lookup_distinct[OF d m] r have "r \<in> set (deps ms (name m))" by (simp add: deps_def)
    then have x: "name m \<in> set (reqs ms r)" by (simp add: mi)
    then obtain q where q: "lookup ms r = Some q" by (cases "lookup ms r") (auto simp: reqs_def)
    from q have "q \<in> set ms" "name q = r" by (rule lookup_in_set, rule lookup_name)
    moreover from x q have "name m \<in> set (requires q)" by (simp add: reqs_def)
    ultimately show "\<exists>q \<in> set ms. name q = r \<and> name m \<in> set (requires q)" by blast
  qed
qed

lemma clean_iff:
  "distinct (map name ms) \<Longrightarrow>
   clean ms \<longleftrightarrow> gray ms = {} \<and> black ms = {} \<and> indexed ms = {}"
proof
  assume "clean ms"
  then show "gray ms = {} \<and> black ms = {} \<and> indexed ms = {}" by (simp add: clean_views)
next
  assume d: "distinct (map name ms)" and e: "gray ms = {} \<and> black ms = {} \<and> indexed ms = {}"
  show "clean ms"
    unfolding clean_def
  proof
    fix m assume "m \<in> set ms"
    from lookup_distinct[OF d this] e
    show "\<not> topologicalMarker m \<and> \<not> sorting m \<and> \<not> indexing m"
      by (auto simp: gray_def black_def indexed_def)
  qed
qed

lemma topoSort_links:
  "collectionTopoSort fuel n st = Some (r, st') \<Longrightarrow> map links (fst st') = map links (fst st)"
  "topoSort_requires fuel items st = Some (r, st') \<Longrightarrow> map links (fst st') = map links (fst st)"
proof (induction fuel n st and fuel items st arbitrary: r st' and r st'
    rule: collectionTopoSort_topoSort_requires.induct)
  case (1 n ms sortStack)
  then show ?case by simp
next
  case (2 fuel n ms sortStack)
  show ?case
  proof (cases "lookup ms n")
    case None
    with 2(2) show ?thesis by auto
  next
    case (Some m)
    show ?thesis
    proof (cases "topologicalMarker m")
      case True
      with 2(2) Some show ?thesis by (auto simp: map_links_modify)
    next
      case nm: False
      show ?thesis
      proof (cases "sorting m")
        case True
        with 2(2) Some nm show ?thesis by auto
      next
        case ns: False
        let ?ms0 = "modify n (\<lambda>m. m\<lparr>topologicalMarker := True\<rparr>) ms"
        obtain r1 ms1 stk1 where
          loop: "topoSort_requires fuel (requires m) (?ms0, sortStack) = Some (r1, ms1, stk1)"
          using 2(2) Some nm ns by (auto split: option.splits)
        note ih = 2(1)[OF Some nm ns loop, simplified]
        then have n1: "map links ms1 = map links ms" by (simp add: map_links_modify)
        show ?thesis
        proof (cases r1)
          case (Inl e)
          with 2(2) Some nm ns loop have "st' = (ms1, stk1)" by auto
          with n1 show ?thesis by simp
        next
          case (Inr u)
          let ?ms2 = "modify n (\<lambda>m. m\<lparr>topologicalMarker := False, sorting := True\<rparr>) ms1"
          from Inr 2(2) Some nm ns loop have "fst st' = ?ms2" by auto
          with n1 show ?thesis by (simp add: map_links_modify)
        qed
      qed
    qed
  qed
next
  case (3 fuel st)
  then show ?case by auto
next
  case (4 fuel item items st)
  from 4(3) obtain r1 st1 where
    first: "collectionTopoSort fuel item st = Some (r1, st1)"
    by (auto split: option.splits)
  note ih1 = 4(1)[OF first]
  show ?case
  proof (cases r1)
    case (Inl e)
    with 4(3) first have "st' = st1" by auto
    with ih1 show ?thesis by simp
  next
    case (Inr u)
    with 4(3) first have rest: "topoSort_requires fuel items st1 = Some (r, st')" by auto
    note ih2 = 4(2)[OF first refl Inr rest]
    with ih1 show ?thesis by simp
  qed
qed

lemma adjacencyIndex_links:
  "collectionAdjacencyIndex fuel n i ms = Some (r, ms') \<Longrightarrow> map links ms' = map links ms"
  "adjacencyIndex_each fuel items i ms = Some (r, ms') \<Longrightarrow> map links ms' = map links ms"
proof (induction fuel n i ms and fuel items i ms arbitrary: r ms' and r ms'
    rule: collectionAdjacencyIndex_adjacencyIndex_each.induct)
  case (1 n i ms)
  then show ?case by simp
next
  case (2 fuel n i ms)
  show ?case
  proof (cases "lookup ms n")
    case None
    with 2(3) show ?thesis by auto
  next
    case (Some m)
    show ?thesis
    proof (cases "indexing m")
      case True
      with 2(3) Some show ?thesis by auto
    next
      case False
      let ?ms0 = "modify n (\<lambda>m. m\<lparr>index := Some i, indexing := True\<rparr>) ms"
      obtain r1 ms1 where
        l1: "adjacencyIndex_each fuel (requires m) i ?ms0 = Some (r1, ms1)"
        using 2(3) Some False by (auto split: option.splits)
      from 2(1)[OF Some False l1] have n1: "map links ms1 = map links ms"
        by (simp add: map_links_modify)
      show ?thesis
      proof (cases r1)
        case (Inl e)
        with 2(3) Some False l1 have "ms' = ms1" by auto
        with n1 show ?thesis by simp
      next
        case (Inr u)
        with 2(3) Some False l1 have
          l2: "adjacencyIndex_each fuel (dependants m) i ms1 = Some (r, ms')" by auto
        from 2(2)[OF Some False l1 refl Inr l2] n1 show ?thesis by simp
      qed
    qed
  qed
next
  case (3 fuel i ms)
  then show ?case by auto
next
  case (4 fuel item items i ms)
  from 4(3) obtain r1 ms1 where
    first: "collectionAdjacencyIndex fuel item i ms = Some (r1, ms1)"
    by (auto split: option.splits)
  note ih1 = 4(1)[OF first]
  show ?case
  proof (cases r1)
    case (Inl e)
    with 4(3) first have "ms' = ms1" by auto
    with ih1 show ?thesis by simp
  next
    case (Inr u)
    with 4(3) first have rest: "adjacencyIndex_each fuel items i ms1 = Some (r, ms')" by auto
    from 4(2)[OF first refl Inr rest] ih1 show ?thesis by simp
  qed
qed

lemma serialize_loop_links:
  "serialize_loop fuel ks (ms, stk, ap) = Some (r, ms', stk', ap') \<Longrightarrow>
   map links ms' = map links ms"
proof (induction ks arbitrary: ms stk ap)
  case Nil
  then show ?case by simp
next
  case (Cons k ks)
  show ?case
  proof (cases "lookup ms k")
    case None
    with Cons.prems show ?thesis by simp
  next
    case (Some m)
    obtain r1 ms1 ap1 where
      A: "(if \<not> indexing m
           then map_option (\<lambda>(r, ms1). (r, ms1, ap + 1))
                  (collectionAdjacencyIndex fuel k ap ms)
           else Some (Inr (), ms, ap)) = Some (r1, ms1, ap1)"
      using Cons.prems Some by (auto split: option.splits if_splits)
    have n1: "map links ms1 = map links ms"
    proof (cases "indexing m")
      case True
      with A show ?thesis by simp
    next
      case False
      with A obtain r0 where "collectionAdjacencyIndex fuel k ap ms = Some (r0, ms1)" by auto
      then show ?thesis by (rule adjacencyIndex_links)
    qed
    show ?thesis
    proof (cases r1)
      case (Inl e)
      with Cons.prems Some A have "ms' = ms1" by simp
      with n1 show ?thesis by simp
    next
      case (Inr u)
      then have u: "r1 = Inr ()" by simp
      note eq = serialize_loop_Cons[OF Some A[unfolded u], of ks stk]
      show ?thesis
      proof (cases "module_sorting ms1 k")
        case True
        with eq Cons.prems have "serialize_loop fuel ks (ms1, stk, ap1) = Some (r, ms', stk', ap')"
          by simp
        from Cons.IH[OF this] n1 show ?thesis by simp
      next
        case False
        with eq Cons.prems obtain r2 ms2 stk2 where
          ts: "collectionTopoSort fuel k (ms1, stk) = Some (r2, ms2, stk2)"
          by (auto split: option.splits)
        from topoSort_links(1)[OF ts] n1 have n2: "map links ms2 = map links ms" by simp
        show ?thesis
        proof (cases r2)
          case (Inl e)
          with eq False ts Cons.prems have "ms' = ms2" by simp
          with n2 show ?thesis by simp
        next
          case (Inr u2)
          with eq False ts Cons.prems have
            "serialize_loop fuel ks (ms2, stk2, ap1) = Some (r, ms', stk', ap')" by simp
          from Cons.IH[OF this] n2 show ?thesis by simp
        qed
      qed
    qed
  qed
qed

lemma serialize_links:
  "serialize fuel c = Some (r, c') \<Longrightarrow> map links (modules c') = map links (modules c)"
  unfolding serialize_def
  by (auto split: option.splits sum.splits prod.splits dest!: serialize_loop_links
      simp: comp_def)

lemma serialize_names:
  "serialize fuel c = Some (r, c') \<Longrightarrow> map name (modules c') = map name (modules c)"
  by (simp add: map_name_links serialize_links)

lemma requires_edges_links:
  "requires_edges ms = (\<Union>l \<in> set (map links ms). Pair (fst l) ` set (fst (snd l)))"
  by (simp add: requires_edges_Union links_def)

lemma serialize_edges:
  "serialize fuel c = Some (r, c') \<Longrightarrow>
   requires_edges (modules c') = requires_edges (modules c)"
  unfolding requires_edges_links by (simp only: serialize_links)

lemma serialize_success_state:
  assumes wf: "well_formed (modules c)" and cl: "clean (modules c)"
    and fuel: "length (modules c) < fuel" and res: "serialize fuel c = Some (Inr stk, c')"
  shows "well_formed (modules c') \<and> clean (modules c')
         \<and> requires_edges (modules c') = requires_edges (modules c)"
proof -
  let ?ms = "modules c"
  let ?clr = "\<lambda>m. m\<lparr>sorting := False, indexing := False\<rparr>"
  from wf have d: "distinct (map name ?ms)" by (simp add: well_formed_def)
  have ks: "set (map name ?ms) \<subseteq> present ?ms" by (simp add: present_names)
  have f: "card (present ?ms) < fuel" using card_present_le[of ?ms] fuel by simp
  from serialize_loop_correct[OF loop_inv_initial[OF wf cl] ks f]
  obtain r ms' stk' ap' where
    loop: "serialize_loop fuel (map name ?ms) (?ms, \<lparr>elements = [], undefined_element = None\<rparr>, 0)
            = Some (r, ms', stk', ap')"
    and ok: "\<forall>u. r = Inr u \<longrightarrow> loop_inv ms' stk' ap' \<and> same_graph ?ms ms'
            \<and> black ?ms \<union> set (map name ?ms) \<subseteq> black ms'" by blast
  from res loop obtain u where r: "r = Inr u" and c': "modules c' = map ?clr ms'"
    by (cases r) (auto simp: serialize_def)
  from ok r have inv: "loop_inv ms' stk' ap'" and sg: "same_graph ?ms ms'" by simp_all
  from inv have g: "gray ms' = {}" by (simp add: loop_inv_def graph_inv_def)
  have lk: "\<And>k. lookup (map ?clr ms') k = map_option ?clr (lookup ms' k)"
    by (rule lookup_map) simp
  have rq: "reqs (modules c') = reqs ?ms"
  proof (rule ext)
    fix k
    have "reqs (modules c') k = reqs ms' k"
      by (cases "lookup ms' k") (simp_all add: reqs_def c' lk)
    with sg show "reqs (modules c') k = reqs ?ms k" by (simp add: same_graph_def)
  qed
  have dp: "deps (modules c') = deps ?ms"
  proof (rule ext)
    fix k
    have "deps (modules c') k = deps ms' k"
      by (cases "lookup ms' k") (simp_all add: deps_def c' lk)
    with sg show "deps (modules c') k = deps ?ms k" by (simp add: same_graph_def)
  qed
  from serialize_names[OF res] d have d': "distinct (map name (modules c'))" by simp
  from wf have "\<forall>a b. b \<in> set (reqs ?ms a) \<longleftrightarrow> a \<in> set (deps ?ms b)"
    by (simp add: well_formed_iff)
  with d' have wf': "well_formed (modules c')" by (simp add: well_formed_iff rq dp)
  have "gray (modules c') = {}"
    using g by (auto simp: gray_def c' lk)
  moreover have "black (modules c') = {}" by (auto simp: black_def c' lk)
  moreover have "indexed (modules c') = {}" by (auto simp: indexed_def c' lk)
  ultimately have cl': "clean (modules c')" by (simp add: clean_iff[OF d'])
  have "requires_edges (modules c') = requires_edges ?ms"
    unfolding req_rel_edges[OF d, symmetric] req_rel_edges[OF d', symmetric]
    by (simp add: req_rel_def rq)
  with wf' cl' show ?thesis by simp
qed

lemma distinct_own_insert:
  "distinct (map key (own_insert key x ys)) \<longleftrightarrow> key x \<notin> key ` set ys \<and> distinct (map key ys)"
  by (induction ys) (auto simp: set_own_insert split: option.splits)

lemma reqs_modify:
  "(\<And>m. name (f m) = name m) \<Longrightarrow>
   reqs (modify n f ms) k =
     (if k = n then (case lookup ms n of None \<Rightarrow> [] | Some m \<Rightarrow> requires (f m)) else reqs ms k)"
  by (simp add: reqs_def lookup_modify split: option.splits)

lemma deps_modify:
  "(\<And>m. name (f m) = name m) \<Longrightarrow>
   deps (modify n f ms) k =
     (if k = n then (case lookup ms n of None \<Rightarrow> [] | Some m \<Rightarrow> dependants (f m)) else deps ms k)"
  by (simp add: deps_def lookup_modify split: option.splits)

lemma clean_modify:
  assumes "\<And>m. topologicalMarker (f m) = topologicalMarker m"
    "\<And>m. sorting (f m) = sorting m" "\<And>m. indexing (f m) = indexing m"
  shows "clean ms \<Longrightarrow> clean (modify n f ms)"
  unfolding clean_def set_modify using assms by auto

lemma links_empty_Module: "requires (empty_Module n) = []" "dependants (empty_Module n) = []"
  by (simp_all add: empty_Module_def)

lemma well_formed_insert:
  assumes wf: "well_formed ms" and l: "lookup ms n = None"
  shows "well_formed (own_insert name (empty_Module n) ms)"
proof -
  let ?m = "empty_Module n"
  from l have l': "lookup ms (name ?m) = None" by simp
  from wf have d: "distinct (map name ms)"
    and mi: "\<forall>a b. b \<in> set (reqs ms a) \<longleftrightarrow> a \<in> set (deps ms b)"
    by (simp_all add: well_formed_iff)
  from l have "n \<notin> name ` set ms" by (simp add: lookup_None_iff)
  with d have d': "distinct (map name (own_insert name ?m ms))"
    by (simp add: distinct_own_insert)
  have lk: "\<And>k. lookup (own_insert name ?m ms) k = (if k = n then Some ?m else lookup ms k)"
    using lookup_own_insert[OF l'] by simp
  have r: "reqs (own_insert name ?m ms) = reqs ms"
    by (rule ext) (simp add: reqs_def lk l links_empty_Module)
  have p: "deps (own_insert name ?m ms) = deps ms"
    by (rule ext) (simp add: deps_def lk l links_empty_Module)
  from d' mi show ?thesis by (simp add: well_formed_iff r p)
qed

lemma clean_insert: "clean ms \<Longrightarrow> clean (own_insert name (empty_Module n) ms)"
  by (simp add: clean_def set_own_insert empty_Module_def)

lemma get_modules:
  assumes "get c nm anyway = (r, c1)"
  shows "modules c1 = modules c
       \<or> (\<exists>n. lookup (modules c) n = None
              \<and> modules c1 = own_insert name (empty_Module n) (modules c))"
  using assms
  by (auto simp: get_def stringLike_def Let_def new_Module_def trim_trim
      split: if_splits option.splits sum.splits)

lemma get_keeps:
  assumes "well_formed (modules c)" "clean (modules c)" "get c nm anyway = (r, c1)"
  shows "well_formed (modules c1) \<and> clean (modules c1)"
  using get_modules[OF assms(3)] assms(1,2)
  by (auto simp: well_formed_insert clean_insert)

lemma modify_const:
  assumes d: "distinct (map name ms)" and l: "lookup ms n = Some m"
  shows "modify n (\<lambda>_. f m) ms = modify n f ms"
  unfolding modify_def
proof (rule map_cong[OF refl])
  fix x assume x: "x \<in> set ms"
  show "(if name x = n then f m else x) = (if name x = n then f x else x)"
  proof (cases "name x = n")
    case True
    with lookup_distinct[OF d x] l have "x = m" by simp
    then show ?thesis by simp
  next
    case False
    then show ?thesis by simp
  qed
qed

lemma well_formed_source:
  assumes wf: "well_formed ms"
  shows "well_formed (modify n (\<lambda>m. m\<lparr>source := s\<rparr>) ms)"
proof -
  from wf have d: "distinct (map name ms)"
    and mi: "\<forall>a b. b \<in> set (reqs ms a) \<longleftrightarrow> a \<in> set (deps ms b)"
    by (simp_all add: well_formed_iff)
  have r: "reqs (modify n (\<lambda>m. m\<lparr>source := s\<rparr>) ms) = reqs ms"
  proof (rule ext)
    fix k
    have "reqs (modify n (\<lambda>m. m\<lparr>source := s\<rparr>) ms) k =
        (if k = n then (case lookup ms n of None \<Rightarrow> [] | Some m \<Rightarrow> requires (m\<lparr>source := s\<rparr>))
         else reqs ms k)" by (rule reqs_modify) simp
    then show "reqs (modify n (\<lambda>m. m\<lparr>source := s\<rparr>) ms) k = reqs ms k"
      by (simp add: reqs_def split: option.splits)
  qed
  have p: "deps (modify n (\<lambda>m. m\<lparr>source := s\<rparr>) ms) = deps ms"
  proof (rule ext)
    fix k
    have "deps (modify n (\<lambda>m. m\<lparr>source := s\<rparr>) ms) k =
        (if k = n then (case lookup ms n of None \<Rightarrow> [] | Some m \<Rightarrow> dependants (m\<lparr>source := s\<rparr>))
         else deps ms k)" by (rule deps_modify) simp
    then show "deps (modify n (\<lambda>m. m\<lparr>source := s\<rparr>) ms) k = deps ms k"
      by (simp add: deps_def split: option.splits)
  qed
  from d mi show ?thesis by (simp add: well_formed_iff r p map_name_modify)
qed

lemma add_shape:
  assumes "add c nm src = (r, c2)"
  shows "\<exists>v c1. get c nm True = (v, c1)
           \<and> (modules c2 = modules c1
               \<or> (\<exists>n m s. lookup (modules c1) n = Some m
                     \<and> modules c2 = modify n (\<lambda>_. m\<lparr>source := Some s\<rparr>) (modules c1)))"
proof -
  obtain res c1 where g: "get c nm True = (res, c1)" by (cases "get c nm True")
  have "modules c2 = modules c1
       \<or> (\<exists>n m s. lookup (modules c1) n = Some m
             \<and> modules c2 = modify n (\<lambda>_. m\<lparr>source := Some s\<rparr>) (modules c1))"
  proof (cases res)
    case (Inl e)
    with assms g show ?thesis by (simp add: add_def)
  next
    case (Inr v)
    show ?thesis
    proof (cases v)
      case (ModuleRef n)
      show ?thesis
      proof (cases "lookup (modules c1) n")
        case None
        with assms g Inr ModuleRef show ?thesis by (simp add: add_def)
      next
        case (Some m)
        show ?thesis
        proof (cases "Module_define m src")
          case (Inl e)
          with assms g Inr ModuleRef Some show ?thesis by (simp add: add_def)
        next
          case d: (Inr m')
          have "modules (snd (add c nm src)) = modify n (\<lambda>_. m') (modules c1)"
            using g Inr ModuleRef Some d
            by (simp add: add_def Let_def split: option.split property.split)
          with assms have c2: "modules c2 = modify n (\<lambda>_. m') (modules c1)" by simp
          from d obtain s where "m' = m\<lparr>source := Some s\<rparr>"
            by (auto simp: Module_define_def split: if_splits sum.splits)
          with c2 Some show ?thesis by blast
        qed
      qed
    next
      case (Builtin k)
      with assms g Inr show ?thesis by (simp add: add_def)
    next
      case Undefined
      with assms g Inr show ?thesis by (simp add: add_def)
    qed
  qed
  with g show ?thesis by blast
qed

lemma add_keeps:
  assumes wf: "well_formed (modules c)" and cl: "clean (modules c)"
    and a: "add c nm src = (r, c2)"
  shows "well_formed (modules c2) \<and> clean (modules c2)"
proof -
  from add_shape[OF a] obtain v c1 where g: "get c nm True = (v, c1)"
    and sh: "modules c2 = modules c1
       \<or> (\<exists>n m s. lookup (modules c1) n = Some m
             \<and> modules c2 = modify n (\<lambda>_. m\<lparr>source := Some s\<rparr>) (modules c1))" by blast
  from get_keeps[OF wf cl g] have wf1: "well_formed (modules c1)" and cl1: "clean (modules c1)"
    by simp_all
  from sh show ?thesis
  proof
    assume "modules c2 = modules c1"
    with wf1 cl1 show ?thesis by simp
  next
    assume "\<exists>n m s. lookup (modules c1) n = Some m
             \<and> modules c2 = modify n (\<lambda>_. m\<lparr>source := Some s\<rparr>) (modules c1)"
    then obtain n m s where l: "lookup (modules c1) n = Some m"
      and c2: "modules c2 = modify n (\<lambda>_. m\<lparr>source := Some s\<rparr>) (modules c1)" by blast
    from wf1 have d: "distinct (map name (modules c1))" by (simp add: well_formed_def)
    from modify_const[OF d l, of "\<lambda>m. m\<lparr>source := Some s\<rparr>"] c2
    have c2': "modules c2 = modify n (\<lambda>m. m\<lparr>source := Some s\<rparr>) (modules c1)" by simp
    have "clean (modules c2)" unfolding c2' using cl1 by (intro clean_modify) simp_all
    with well_formed_source[OF wf1] c2' show ?thesis by simp
  qed
qed

lemma well_formed_link:
  assumes wf: "well_formed ms" and t: "lookup ms t = Some mt" and q: "lookup ms q = Some mq"
    and ne: "t \<noteq> q"
    and f: "\<And>m. name (f m) = name m" "\<And>m. set (requires (f m)) = insert q (set (requires m))"
      "\<And>m. dependants (f m) = dependants m"
    and g: "\<And>m. name (g m) = name m" "\<And>m. requires (g m) = requires m"
      "\<And>m. set (dependants (g m)) = insert t (set (dependants m))"
  shows "well_formed (modify q g (modify t f ms))"
proof -
  let ?ms1 = "modify t f ms"
  let ?ms2 = "modify q g ?ms1"
  from wf have d: "distinct (map name ms)"
    and mi: "\<And>a b. b \<in> set (reqs ms a) \<longleftrightarrow> a \<in> set (deps ms b)"
    by (simp_all add: well_formed_iff)
  have l1: "\<And>k. lookup ?ms1 k = (if k = t then map_option f (lookup ms k) else lookup ms k)"
    by (rule lookup_modify) (rule f(1))
  have l2: "\<And>k. lookup ?ms2 k = (if k = q then map_option g (lookup ?ms1 k) else lookup ?ms1 k)"
    by (rule lookup_modify) (rule g(1))
  have R: "\<And>a. set (reqs ?ms2 a) = (if a = t then insert q (set (reqs ms a)) else set (reqs ms a))"
    using t q ne by (auto simp: reqs_def l1 l2 f g split: option.splits)
  have D: "\<And>b. set (deps ?ms2 b) = (if b = q then insert t (set (deps ms b)) else set (deps ms b))"
    using t q ne by (auto simp: deps_def l1 l2 f g split: option.splits)
  have "distinct (map name ?ms2)" using d by (simp add: map_name_modify f g)
  moreover have "\<forall>a b. b \<in> set (reqs ?ms2 a) \<longleftrightarrow> a \<in> set (deps ?ms2 b)"
    unfolding R D using mi by auto
  ultimately show ?thesis by (simp add: well_formed_iff)
qed

lemma well_formed_require:
  assumes wf: "well_formed ms" and t: "lookup ms t = Some mt" and q: "lookup ms q = Some mq"
    and ne: "t \<noteq> q"
  shows "well_formed
           (modify q (\<lambda>m. m\<lparr>dependants := own_insert id t (dependants m),
                           numberOfDependants := numberOfDependants m + 1\<rparr>)
              (modify t (\<lambda>m. m\<lparr>requires := own_insert id q (requires m),
                             numberOfRequirements := numberOfRequirements m + 1\<rparr>) ms))"
  using wf t q ne by (rule well_formed_link) (simp_all add: set_own_insert)

lemma Module_require_keeps:
  assumes wf: "well_formed ms" and cl: "clean ms" and r: "Module_require ms a v = Inr ms'"
  shows "well_formed ms' \<and> clean ms'"
proof -
  from r obtain b t q where v: "v = ModuleRef b" and t: "lookup ms a = Some t"
    and q: "lookup ms b = Some q" and ne: "name t \<noteq> name q"
    and ms': "ms' = modify (name q)
               (\<lambda>m. m\<lparr>dependants := own_insert id (name t) (dependants m),
                      numberOfDependants := numberOfDependants m + 1\<rparr>)
               (modify (name t)
                  (\<lambda>m. m\<lparr>requires := own_insert id (name q) (requires m),
                         numberOfRequirements := numberOfRequirements m + 1\<rparr>)
                  ms)"
    by (auto simp: Module_require_def split: option.splits if_splits jsval.splits)
  from t q have nt: "name t = a" and nq: "name q = b" by (auto dest: lookup_name)
  from t q nt nq have t': "lookup ms (name t) = Some t" and q': "lookup ms (name q) = Some q"
    by simp_all
  have "well_formed ms'" unfolding ms' using wf t' q' ne by (rule well_formed_require)
  moreover have "clean ms'" unfolding ms'
    by (intro clean_modify cl) simp_all
  ultimately show ?thesis by simp
qed

lemma connect_shape:
  assumes "connect c a b = (r, c1)"
  shows "\<exists>va ca. get c a True = (va, ca)
           \<and> (modules c1 = modules ca
               \<or> (\<exists>vb cb. get ca b True = (vb, cb)
                    \<and> (modules c1 = modules cb
                        \<or> (\<exists>x y. Module_require (modules cb) x y = Inr (modules c1)))))"
proof -
  obtain ra ca where ga: "get c a True = (ra, ca)" by (cases "get c a True")
  have "modules c1 = modules ca
       \<or> (\<exists>vb cb. get ca b True = (vb, cb)
            \<and> (modules c1 = modules cb
                \<or> (\<exists>x y. Module_require (modules cb) x y = Inr (modules c1))))"
  proof (cases ra)
    case (Inl e)
    with assms ga show ?thesis by (simp add: connect_def)
  next
    case (Inr va)
    obtain rb cb where gb: "get ca b True = (rb, cb)" by (cases "get ca b True")
    have "modules c1 = modules cb
          \<or> (\<exists>x y. Module_require (modules cb) x y = Inr (modules c1))"
    proof (cases rb)
      case (Inl e)
      with assms ga Inr gb show ?thesis by (simp add: connect_def)
    next
      case vb: (Inr vb)
      show ?thesis
      proof (cases "new_Dependency (modules cb) va vb")
        case (Inl e)
        with assms ga Inr gb vb show ?thesis by (simp add: connect_def)
      next
        case nd: (Inr p)
        obtain dp ms where p: "p = (dp, ms)" by (cases p)
        with assms ga Inr gb vb nd have c1: "modules c1 = ms" by (auto simp: connect_def)
        from nd p obtain x where "Module_require (modules cb) x vb = Inr ms"
          by (auto simp: new_Dependency_def split: jsval.splits sum.splits)
        with c1 show ?thesis by blast
      qed
    qed
    with gb show ?thesis by blast
  qed
  with ga show ?thesis by blast
qed

lemma connect_keeps:
  assumes wf: "well_formed (modules c)" and cl: "clean (modules c)"
    and a: "connect c a b = (r, c1)"
  shows "well_formed (modules c1) \<and> clean (modules c1)"
proof -
  from connect_shape[OF a] obtain va ca where ga: "get c a True = (va, ca)"
    and sh: "modules c1 = modules ca
               \<or> (\<exists>vb cb. get ca b True = (vb, cb)
                    \<and> (modules c1 = modules cb
                        \<or> (\<exists>x y. Module_require (modules cb) x y = Inr (modules c1))))"
    by blast
  from get_keeps[OF wf cl ga] have k1: "well_formed (modules ca)" "clean (modules ca)"
    by simp_all
  from sh show ?thesis
  proof
    assume "modules c1 = modules ca"
    with k1 show ?thesis by simp
  next
    assume "\<exists>vb cb. get ca b True = (vb, cb)
                    \<and> (modules c1 = modules cb
                        \<or> (\<exists>x y. Module_require (modules cb) x y = Inr (modules c1)))"
    then obtain vb cb where gb: "get ca b True = (vb, cb)"
      and sh2: "modules c1 = modules cb
                 \<or> (\<exists>x y. Module_require (modules cb) x y = Inr (modules c1))" by blast
    from get_keeps[OF k1 gb] have k2: "well_formed (modules cb)" "clean (modules cb)"
      by simp_all
    from sh2 show ?thesis
    proof
      assume "modules c1 = modules cb"
      with k2 show ?thesis by simp
    next
      assume "\<exists>x y. Module_require (modules cb) x y = Inr (modules c1)"
      then obtain x y where "Module_require (modules cb) x y = Inr (modules c1)" by blast
      with k2 show ?thesis by (rule Module_require_keeps)
    qed
  qed
qed

lemma new_keeps:
  "well_formed (modules new_ModuleCollection) \<and> clean (modules new_ModuleCollection)"
  by (simp add: new_ModuleCollection_def well_formed_def clean_def)

section \<open>Reachable collections\<close>

text \<open>
  Every collection that the methods build without a failing \<open>serialize\<close> is well
  formed and free of traversal flags. No method removes an edge, and
  \<open>serialize\<close> fails on a well-formed flag-free collection only when there is a
  cycle: a reachable collection whose requires-edges form no cycle has never seen
  \<open>serialize\<close> fail, and is well formed and free of traversal flags.
\<close>

lemma built_consistent: "built c \<Longrightarrow> well_formed (modules c) \<and> clean (modules c)"
proof (induction rule: built.induct)
  case built_new
  show ?case by (rule new_keeps)
next
  case (built_get c nm anyway r c')
  from built_get(3) have wf: "well_formed (modules c)" and cl: "clean (modules c)" by simp_all
  from wf cl built_get(2) show ?case by (rule get_keeps)
next
  case (built_add c nm src r1 c')
  from built_add(3) have wf: "well_formed (modules c)" and cl: "clean (modules c)" by simp_all
  from wf cl built_add(2) show ?case by (rule add_keeps)
next
  case (built_connect c a b r2 c')
  from built_connect(3) have wf: "well_formed (modules c)" and cl: "clean (modules c)"
    by simp_all
  from wf cl built_connect(2) show ?case by (rule connect_keeps)
next
  case (built_serialize c fuel stk c')
  from built_serialize(4) have wf: "well_formed (modules c)" and cl: "clean (modules c)"
    by simp_all
  from serialize_success_state[OF wf cl built_serialize(2,3)] show ?case by simp
qed

lemma built_reached: "built c \<Longrightarrow> reached c"
proof (induction rule: built.induct)
  case built_new
  show ?case by (rule reached_new)
next
  case (built_get c nm anyway r c')
  from built_get(3,2) show ?case by (rule reached_get)
next
  case (built_add c nm src r1 c')
  from built_add(3,2) show ?case by (rule reached_add)
next
  case (built_connect c a b r2 c')
  from built_connect(3,2) show ?case by (rule reached_connect)
next
  case (built_serialize c fuel stk c')
  from built_serialize(4,2,3) show ?case by (rule reached_serialize)
qed

lemma edges_insert:
  "requires_edges (own_insert name (empty_Module n) ms) = requires_edges ms"
  by (simp add: requires_edges_Union set_own_insert links_empty_Module)

lemma edges_modify_mono:
  assumes "\<And>m. name (f m) = name m" "\<And>m. set (requires m) \<subseteq> set (requires (f m))"
  shows "requires_edges ms \<subseteq> requires_edges (modify n f ms)"
proof
  fix p assume "p \<in> requires_edges ms"
  then obtain m r where p: "p = (name m, r)" and m: "m \<in> set ms" and r: "r \<in> set (requires m)"
    unfolding requires_edges_def by blast
  define m' where "m' = (if name m = n then f m else m)"
  from m have "(if name m = n then f m else m) \<in> set (modify n f ms)"
    unfolding set_modify by (rule imageI)
  then have 1: "m' \<in> set (modify n f ms)" by (simp add: m'_def)
  have 2: "name m' = name m" using assms(1) by (simp add: m'_def)
  have 3: "r \<in> set (requires m')"
  proof (cases "name m = n")
    case True
    with assms(2)[of m] r show ?thesis by (auto simp: m'_def)
  next
    case False
    with r show ?thesis by (simp add: m'_def)
  qed
  have "(name m', r) \<in> requires_edges (modify n f ms)"
    unfolding requires_edges_def using 1 3 by blast
  with 2 p show "p \<in> requires_edges (modify n f ms)" by simp
qed

lemma get_edges:
  "get c nm anyway = (r, c1) \<Longrightarrow> requires_edges (modules c1) = requires_edges (modules c)"
  by (drule get_modules) (auto simp: edges_insert)

lemma get_distinct:
  assumes "get c nm anyway = (r, c1)" "distinct (map name (modules c))"
  shows "distinct (map name (modules c1))"
  using get_modules[OF assms(1)] assms(2)
  by (auto simp: distinct_own_insert lookup_None_iff)

lemma add_edges:
  assumes a: "add c nm src = (r, c2)" and d: "distinct (map name (modules c))"
  shows "requires_edges (modules c2) = requires_edges (modules c)
         \<and> distinct (map name (modules c2))"
proof -
  from add_shape[OF a] obtain v c1 where g: "get c nm True = (v, c1)"
    and sh: "modules c2 = modules c1
       \<or> (\<exists>n m s. lookup (modules c1) n = Some m
             \<and> modules c2 = modify n (\<lambda>_. m\<lparr>source := Some s\<rparr>) (modules c1))" by blast
  note e1 = get_edges[OF g]
  note d1 = get_distinct[OF g d]
  from sh show ?thesis
  proof
    assume "modules c2 = modules c1"
    with e1 d1 show ?thesis by simp
  next
    assume "\<exists>n m s. lookup (modules c1) n = Some m
             \<and> modules c2 = modify n (\<lambda>_. m\<lparr>source := Some s\<rparr>) (modules c1)"
    then obtain n m s where l: "lookup (modules c1) n = Some m"
      and c2: "modules c2 = modify n (\<lambda>_. m\<lparr>source := Some s\<rparr>) (modules c1)" by blast
    from modify_const[OF d1 l, of "\<lambda>m. m\<lparr>source := Some s\<rparr>"] c2
    have c2': "modules c2 = modify n (\<lambda>m. m\<lparr>source := Some s\<rparr>) (modules c1)" by simp
    have "map links (modules c2) = map links (modules c1)"
      unfolding c2' by (rule map_links_modify) simp
    then have "requires_edges (modules c2) = requires_edges (modules c1)"
      and "map name (modules c2) = map name (modules c1)"
      by (simp_all only: requires_edges_links map_name_links)
    with e1 d1 show ?thesis by simp
  qed
qed

lemma Module_require_edges:
  assumes r: "Module_require ms a v = Inr ms'"
  shows "requires_edges ms \<subseteq> requires_edges ms' \<and> map name ms' = map name ms"
proof -
  from r obtain b t q where v: "v = ModuleRef b" and t: "lookup ms a = Some t"
    and q: "lookup ms b = Some q" and ne: "name t \<noteq> name q"
    and ms': "ms' = modify (name q)
               (\<lambda>m. m\<lparr>dependants := own_insert id (name t) (dependants m),
                      numberOfDependants := numberOfDependants m + 1\<rparr>)
               (modify (name t)
                  (\<lambda>m. m\<lparr>requires := own_insert id (name q) (requires m),
                         numberOfRequirements := numberOfRequirements m + 1\<rparr>)
                  ms)"
    by (auto simp: Module_require_def split: option.splits if_splits jsval.splits)
  let ?ms1 = "modify (name t)
                  (\<lambda>m. m\<lparr>requires := own_insert id (name q) (requires m),
                         numberOfRequirements := numberOfRequirements m + 1\<rparr>) ms"
  have "requires_edges ms \<subseteq> requires_edges ?ms1"
    by (rule edges_modify_mono) (auto simp: set_own_insert)
  moreover have "requires_edges ?ms1 \<subseteq> requires_edges ms'"
    unfolding ms' by (rule edges_modify_mono) simp_all
  moreover have "map name ms' = map name ms"
    unfolding ms' by (simp add: map_name_modify)
  ultimately show ?thesis by blast
qed

lemma connect_edges:
  assumes a: "connect c a b = (r, c1)" and d: "distinct (map name (modules c))"
  shows "requires_edges (modules c) \<subseteq> requires_edges (modules c1)
         \<and> distinct (map name (modules c1))"
proof -
  from connect_shape[OF a] obtain va ca where ga: "get c a True = (va, ca)"
    and sh: "modules c1 = modules ca
               \<or> (\<exists>vb cb. get ca b True = (vb, cb)
                    \<and> (modules c1 = modules cb
                        \<or> (\<exists>x y. Module_require (modules cb) x y = Inr (modules c1))))"
    by blast
  note e1 = get_edges[OF ga]
  note d1 = get_distinct[OF ga d]
  from sh show ?thesis
  proof
    assume "modules c1 = modules ca"
    with e1 d1 show ?thesis by simp
  next
    assume "\<exists>vb cb. get ca b True = (vb, cb)
                    \<and> (modules c1 = modules cb
                        \<or> (\<exists>x y. Module_require (modules cb) x y = Inr (modules c1)))"
    then obtain vb cb where gb: "get ca b True = (vb, cb)"
      and sh2: "modules c1 = modules cb
                 \<or> (\<exists>x y. Module_require (modules cb) x y = Inr (modules c1))" by blast
    note e2 = get_edges[OF gb]
    note d2 = get_distinct[OF gb d1]
    from sh2 show ?thesis
    proof
      assume "modules c1 = modules cb"
      with e1 e2 d2 show ?thesis by simp
    next
      assume "\<exists>x y. Module_require (modules cb) x y = Inr (modules c1)"
      then obtain x y where "Module_require (modules cb) x y = Inr (modules c1)" by blast
      from Module_require_edges[OF this] e1 e2 d2 show ?thesis by simp
    qed
  qed
qed

lemma reached_distinct: "reached c \<Longrightarrow> distinct (map name (modules c))"
proof (induction rule: reached.induct)
  case reached_new
  show ?case by (simp add: new_ModuleCollection_def)
next
  case (reached_get c nm anyway r c')
  from reached_get(2,3) show ?case by (rule get_distinct)
next
  case (reached_add c nm src r1 c')
  from add_edges[OF reached_add(2,3)] show ?case by simp
next
  case (reached_connect c a b r2 c')
  from connect_edges[OF reached_connect(2,3)] show ?case by simp
next
  case (reached_serialize c fuel r3 c')
  from serialize_names[OF reached_serialize(3)] reached_serialize(4) show ?case by simp
qed

lemma reached_acyclic_built:
  "reached c \<Longrightarrow> acyclic (requires_edges (modules c)) \<Longrightarrow> built c"
proof (induction rule: reached.induct)
  case reached_new
  show ?case by (rule built_new)
next
  case (reached_get c nm anyway r c')
  from get_edges[OF reached_get(2)] reached_get(4)
  have "acyclic (requires_edges (modules c))" by simp
  then have "built c" by (rule reached_get(3))
  then show ?case using reached_get(2) by (rule built_get)
next
  case (reached_add c nm src r1 c')
  from add_edges[OF reached_add(2) reached_distinct[OF reached_add(1)]] reached_add(4)
  have "acyclic (requires_edges (modules c))" by simp
  then have "built c" by (rule reached_add(3))
  then show ?case using reached_add(2) by (rule built_add)
next
  case (reached_connect c a b r2 c')
  from connect_edges[OF reached_connect(2) reached_distinct[OF reached_connect(1)]]
  have "requires_edges (modules c) \<subseteq> requires_edges (modules c')" by simp
  with reached_connect(4) have "acyclic (requires_edges (modules c))"
    by (rule acyclic_subset)
  then have "built c" by (rule reached_connect(3))
  then show ?case using reached_connect(2) by (rule built_connect)
next
  case (reached_serialize c fuel r3 c')
  from serialize_edges[OF reached_serialize(3)] reached_serialize(5)
  have ac: "acyclic (requires_edges (modules c))" by simp
  then have b: "built c" by (rule reached_serialize(4))
  from built_consistent[OF b] have wf: "well_formed (modules c)" and cl: "clean (modules c)"
    by simp_all
  from serialize_acyclic[OF wf cl ac reached_serialize(2)] reached_serialize(3)
  obtain stk where "serialize fuel c = Some (Inr stk, c')" by auto
  with b reached_serialize(2) show ?case by (rule built_serialize)
qed

lemma reached_acyclic_consistent:
  "reached c \<Longrightarrow> acyclic (requires_edges (modules c)) \<Longrightarrow>
   well_formed (modules c) \<and> clean (modules c)"
  by (rule built_consistent) (rule reached_acyclic_built)

end
